theory Spec2Isabelle
  imports Complex_Main
begin

section \<open>Python values and dictionaries\<close>

text \<open>
  A workflow definition arrives as parsed JSON.  The values are the JSON values of Python:
  \<open>None\<close>, booleans, integers, floats, strings, lists and dictionaries with string keys.
  Floats are carried as rationals; no float arithmetic is performed on them here (the
  durations that the executor stores are readings supplied by the environment).
\<close>

datatype pyval =
    PNone
  | PBool bool
  | PInt int
  | PFloat rat
  | PStr string
  | PList "pyval list"
  | PDict "(string \<times> pyval) list"

type_synonym pydict = "(string \<times> pyval) list"

text \<open>
  A Python \<open>dict\<close> keeps its keys in insertion order: storing under a key that is present
  replaces the value in place, storing under a new key appends.  A dictionary is an
  association list; \<open>d.get(k)\<close> is \<open>map_of d k\<close>.
\<close>

fun dict_set :: "('k \<times> 'v) list \<Rightarrow> 'k \<Rightarrow> 'v \<Rightarrow> ('k \<times> 'v) list" where
  "dict_set [] k v = [(k, v)]"
| "dict_set ((k', v') # d) k v =
     (if k' = k then (k, v) # d else (k', v') # dict_set d k v)"

text \<open>\<open>d.update(other)\<close>: every item of \<open>other\<close>, in its order, is stored into \<open>d\<close>.\<close>

fun dict_update :: "('k \<times> 'v) list \<Rightarrow> ('k \<times> 'v) list \<Rightarrow> ('k \<times> 'v) list" where
  "dict_update d [] = d"
| "dict_update d ((k, v) # other) = dict_update (dict_set d k v) other"

definition dict_keys :: "('k \<times> 'v) list \<Rightarrow> 'k list" where
  "dict_keys d = map fst d"

text \<open>\<open>d.get(k)\<close> with Python's default \<open>None\<close>.\<close>

definition py_get :: "pydict \<Rightarrow> string \<Rightarrow> pyval" where
  "py_get d k = (case map_of d k of None \<Rightarrow> PNone | Some v \<Rightarrow> v)"

text \<open>\<open>d.get(k, {})\<close>.\<close>

definition py_get_or_empty :: "pydict \<Rightarrow> string \<Rightarrow> pyval" where
  "py_get_or_empty d k = (case map_of d k of None \<Rightarrow> PDict [] | Some v \<Rightarrow> v)"

fun is_dict :: "pyval \<Rightarrow> bool" where
  "is_dict (PDict _) = True"
| "is_dict _ = False"

fun is_list :: "pyval \<Rightarrow> bool" where
  "is_list (PList _) = True"
| "is_list _ = False"

text \<open>Lists and dictionaries are unhashable: a set membership test on them raises \<open>TypeError\<close>.\<close>

fun hashable :: "pyval \<Rightarrow> bool" where
  "hashable (PList _) = False"
| "hashable (PDict _) = False"
| "hashable _ = True"

text \<open>Decimal rendering of an index, as an f-string prints it.\<close>

definition digit_char :: "nat \<Rightarrow> char" where
  "digit_char d = ''0123456789'' ! d"

fun str_nat :: "nat \<Rightarrow> string" where
  "str_nat n = (if n < 10 then [digit_char n] else str_nat (n div 10) @ [digit_char (n mod 10)])"

declare str_nat.simps [simp del]

section \<open>Exceptions\<close>

text \<open>
  The messages of \<open>validator.py\<close>.  Each constructor stands for one message text of the
  source; a value interpolated into the text is the constructor's argument.
  \<^item> \<open>Workflow_must_be_a_JSON_object\<close>: "Workflow must be a JSON object"
  \<^item> \<open>Missing_nodes_list\<close>, \<open>Missing_edges_list\<close>: "Missing 'nodes' list", "Missing 'edges' list"
  \<^item> \<open>Too_many_nodes\<close>, \<open>Too_many_edges\<close>: "Too many nodes (max 50)", "Too many edges (max 200)"
  \<^item> \<open>Node_must_be_an_object\<close>: "Node must be an object"
  \<^item> \<open>Node_must_have_a_string_id\<close>: "Node must have a string 'id'"
  \<^item> \<open>Duplicate_node_id nid\<close>: "Duplicate node id '{nid}'"
  \<^item> \<open>Invalid_or_missing_node_type ntype\<close>: "Invalid or missing node type '{ntype}'"
  \<^item> \<open>Config_must_be_an_object\<close>: "Config must be an object"
  \<^item> \<open>Missing_required_config key\<close>: "Missing required config '{key}'"
  \<^item> \<open>Edge_must_be_an_object\<close>: "Edge must be an object with 'from' and 'to'"
  \<^item> \<open>Missing_invalid_from\<close>, \<open>Missing_invalid_to\<close>: "Missing/invalid 'from'", "Missing/invalid 'to'"
  \<^item> \<open>Unknown_node_id nid\<close>: "Unknown node id '{nid}'"
  \<^item> \<open>Exactly_one_user_query\<close>: "Workflow must contain exactly one 'user_query' node"
  \<^item> \<open>At_least_one_output\<close>: "Workflow must contain at least one 'output' node"
  \<^item> \<open>Unreachable_nodes ids\<close>: "Unreachable nodes from user_query: {list(unreachable)}";
    the source prints a Python set in its iteration order, so the argument is the set
  \<^item> \<open>Cycle_detected\<close>: "Cycle detected in workflow (graph is not a DAG)"
\<close>

datatype message =
    Workflow_must_be_a_JSON_object
  | Missing_nodes_list
  | Missing_edges_list
  | Too_many_nodes nat
  | Too_many_edges nat
  | Node_must_be_an_object
  | Node_must_have_a_string_id
  | Duplicate_node_id string
  | Invalid_or_missing_node_type pyval
  | Config_must_be_an_object
  | Missing_required_config string
  | Edge_must_be_an_object
  | Missing_invalid_from
  | Missing_invalid_to
  | Unknown_node_id string
  | Exactly_one_user_query
  | At_least_one_output
  | Unreachable_nodes "string set"
  | Cycle_detected

datatype ValidationErrorItem = ValidationErrorItem (field: string) (message: message)

text \<open>
  The exceptions that leave the functions modelled here.  \<open>NodeExecutionError\<close> carries its
  message.  \<open>CapabilityError\<close> is any exception (a subclass of \<open>Exception\<close>) raised by a
  node's own \<open>run\<close>, with the text \<open>str(exc)\<close>.  \<open>TypeError\<close> and \<open>KeyError\<close> are
  Python's own, with their text.
\<close>

datatype exception =
    WorkflowValidationError "ValidationErrorItem list"
  | NodeExecutionError string
  | CapabilityError string
  | TypeError string
  | KeyError string

definition quoted :: "string \<Rightarrow> string" where
  "quoted s = CHR 0x27 # s @ [CHR 0x27]"

text \<open>\<open>str(exc)\<close>.\<close>

fun str_exc :: "exception \<Rightarrow> string" where
  "str_exc (WorkflowValidationError errors) = ''Workflow validation failed''"
| "str_exc (NodeExecutionError msg) = msg"
| "str_exc (CapabilityError msg) = msg"
| "str_exc (TypeError msg) = msg"
| "str_exc (KeyError msg) = msg"

section \<open>validator.py\<close>

definition NODE_TYPES :: "string set" where
  "NODE_TYPES = {''user_query'', ''knowledge_base'', ''llm_engine'', ''output''}"

text \<open>
  \<open>REQUIRED_NODE_CONFIG.get(ntype, [])\<close>: the table maps each of the four node types to the
  empty list, and the default is the empty list.
\<close>

definition REQUIRED_NODE_CONFIG_get :: "pyval \<Rightarrow> string list" where
  "REQUIRED_NODE_CONFIG_get ntype = []"

definition MAX_NODES :: nat where "MAX_NODES = 50"
definition MAX_EDGES :: nat where "MAX_EDGES = 200"

subsection \<open>Shape\<close>

definition has_list :: "pydict \<Rightarrow> string \<Rightarrow> bool" where
  "has_list w k = (case map_of w k of Some v \<Rightarrow> is_list v | None \<Rightarrow> False)"

fun validate_shape :: "pyval \<Rightarrow> ValidationErrorItem list" where
  "validate_shape (PDict w) =
     (if has_list w ''nodes'' then [] else [ValidationErrorItem ''nodes'' Missing_nodes_list]) @
     (if has_list w ''edges'' then [] else [ValidationErrorItem ''edges'' Missing_edges_list])"
| "validate_shape _ = [ValidationErrorItem ''workflow'' Workflow_must_be_a_JSON_object]"

subsection \<open>Nodes and edges\<close>

text \<open>
  One iteration of the loop over \<open>enumerate(nodes)\<close>.  It returns the items this iteration
  appends to \<open>errors\<close> and the updated set \<open>ids\<close>.  The membership test
  \<open>ntype not in NODE_TYPES\<close> hashes \<open>ntype\<close>, and raises \<open>TypeError\<close> when it is a list or a
  dictionary.  The loop over the required keys runs over the empty list.
\<close>

definition key_in_config :: "string \<Rightarrow> pyval \<Rightarrow> bool" where
  "key_in_config key config = (case config of PDict c \<Rightarrow> key \<in> fst ` set c | _ \<Rightarrow> False)"

definition node_path :: "nat \<Rightarrow> string" where
  "node_path idx = ''nodes['' @ str_nat idx @ '']''"

definition edge_path :: "nat \<Rightarrow> string" where
  "edge_path idx = ''edges['' @ str_nat idx @ '']''"

text \<open>
  The id of a node.  \<open>not nid or not isinstance(nid, str)\<close> is false exactly for a
  non-empty string: every other value is falsy or not a string.
\<close>

definition check_id :: "nat \<Rightarrow> pyval \<Rightarrow> string set \<Rightarrow> ValidationErrorItem list \<times> string set" where
  "check_id idx nid ids =
     (case nid of
        PStr s \<Rightarrow>
          (if s = [] then
             ([ValidationErrorItem (node_path idx @ ''.id'') Node_must_have_a_string_id], ids)
           else
             ((if s \<in> ids then [ValidationErrorItem (node_path idx @ ''.id'') (Duplicate_node_id s)]
               else []),
              insert s ids))
      | _ \<Rightarrow> ([ValidationErrorItem (node_path idx @ ''.id'') Node_must_have_a_string_id], ids))"

fun type_name :: "pyval \<Rightarrow> string" where
  "type_name PNone = ''NoneType''"
| "type_name (PBool _) = ''bool''"
| "type_name (PInt _) = ''int''"
| "type_name (PFloat _) = ''float''"
| "type_name (PStr _) = ''str''"
| "type_name (PList _) = ''list''"
| "type_name (PDict _) = ''dict''"

definition check_type :: "nat \<Rightarrow> pyval \<Rightarrow> exception + ValidationErrorItem list" where
  "check_type idx ntype =
     (if \<not> hashable ntype then Inl (TypeError (''unhashable type: '' @ quoted (type_name ntype)))
      else if ntype \<in> PStr ` NODE_TYPES then Inr []
      else Inr [ValidationErrorItem (node_path idx @ ''.type'') (Invalid_or_missing_node_type ntype)])"

definition check_config :: "nat \<Rightarrow> pyval \<Rightarrow> pyval \<Rightarrow> ValidationErrorItem list" where
  "check_config idx config ntype =
     (if is_dict config then []
      else [ValidationErrorItem (node_path idx @ ''.config'') Config_must_be_an_object]) @
     [ValidationErrorItem (node_path idx @ ''.config.'' @ key) (Missing_required_config key).
        key \<leftarrow> REQUIRED_NODE_CONFIG_get ntype, \<not> key_in_config key config]"

definition check_node ::
  "nat \<Rightarrow> pyval \<Rightarrow> string set \<Rightarrow> exception + (ValidationErrorItem list \<times> string set)" where
  "check_node idx n ids =
     (case n of
        PDict nd \<Rightarrow>
          (let nid = py_get nd ''id'';
               ntype = py_get nd ''type'';
               (id_errors, ids') = check_id idx nid ids
           in case check_type idx ntype of
                Inl exc \<Rightarrow> Inl exc
              | Inr type_errors \<Rightarrow>
                  Inr (id_errors @ type_errors @
                       check_config idx (py_get_or_empty nd ''config'') ntype, ids'))
      | _ \<Rightarrow> Inr ([ValidationErrorItem (node_path idx) Node_must_be_an_object], ids))"

fun check_nodes ::
  "nat \<Rightarrow> pyval list \<Rightarrow> ValidationErrorItem list \<Rightarrow> string set \<Rightarrow>
   exception + (ValidationErrorItem list \<times> string set)" where
  "check_nodes idx [] errors ids = Inr (errors, ids)"
| "check_nodes idx (n # ns) errors ids =
     (case check_node idx n ids of
        Inl exc \<Rightarrow> Inl exc
      | Inr (new_errors, ids') \<Rightarrow> check_nodes (Suc idx) ns (errors @ new_errors) ids')"

text \<open>
  One endpoint of an edge: \<open>which\<close> is \<open>from\<close> or \<open>to\<close>.  The endpoint must be a non-empty
  string, and then a known node id.
\<close>

definition check_endpoint ::
  "nat \<Rightarrow> string \<Rightarrow> message \<Rightarrow> pyval \<Rightarrow> string set \<Rightarrow> ValidationErrorItem list" where
  "check_endpoint idx which missing v node_ids =
     (case v of
        PStr s \<Rightarrow>
          (if s = [] then [ValidationErrorItem (edge_path idx @ ''.'' @ which) missing]
           else if s \<notin> node_ids then
             [ValidationErrorItem (edge_path idx @ ''.'' @ which) (Unknown_node_id s)]
           else [])
      | _ \<Rightarrow> [ValidationErrorItem (edge_path idx @ ''.'' @ which) missing])"

definition check_edge :: "nat \<Rightarrow> pyval \<Rightarrow> string set \<Rightarrow> ValidationErrorItem list" where
  "check_edge idx e node_ids =
     (case e of
        PDict ed \<Rightarrow>
          check_endpoint idx ''from'' Missing_invalid_from (py_get ed ''from'') node_ids @
          check_endpoint idx ''to'' Missing_invalid_to (py_get ed ''to'') node_ids
      | _ \<Rightarrow> [ValidationErrorItem (edge_path idx) Edge_must_be_an_object])"

fun check_edges :: "nat \<Rightarrow> pyval list \<Rightarrow> string set \<Rightarrow> ValidationErrorItem list" where
  "check_edges idx [] node_ids = []"
| "check_edges idx (e # es) node_ids = check_edge idx e node_ids @ check_edges (Suc idx) es node_ids"

text \<open>
  \<open>validate_nodes_and_edges\<close> is called once the shape is valid, so \<open>workflow.get("nodes", [])\<close>
  and \<open>workflow.get("edges", [])\<close> are the two lists; the model takes them as arguments.
\<close>

definition validate_nodes_and_edges ::
  "pyval list \<Rightarrow> pyval list \<Rightarrow> exception + ValidationErrorItem list" where
  "validate_nodes_and_edges nodes edges =
     (let errors =
            (if length nodes > MAX_NODES then [ValidationErrorItem ''nodes'' (Too_many_nodes MAX_NODES)]
             else []) @
            (if length edges > MAX_EDGES then [ValidationErrorItem ''edges'' (Too_many_edges MAX_EDGES)]
             else [])
      in case check_nodes 0 nodes errors {} of
           Inl exc \<Rightarrow> Inl exc
         | Inr (errors', ids) \<Rightarrow> Inr (errors' @ check_edges 0 edges ids))"

subsection \<open>The typed view of a structurally valid definition\<close>

text \<open>
  The graph phase and the executor read a definition by subscripting: \<open>workflow["nodes"]\<close>,
  \<open>n["id"]\<close>, \<open>n["type"]\<close>, \<open>n.get("config", {})\<close>, \<open>e["from"]\<close>, \<open>e["to"]\<close>, and they index
  their dictionaries by these ids.  Both run only after the shape and the structural phase
  have passed, where every node has a non-empty string id and a registered type and every
  edge names two node ids.  \<open>workflow_graph\<close> reads a definition that way; it is \<open>None\<close> where
  a key is missing or an id, type or endpoint is not a string.
\<close>

record node =
  node_id :: string
  node_type :: string
  node_config :: pyval

type_synonym edge = "string \<times> string"

definition str_at :: "pydict \<Rightarrow> string \<Rightarrow> string option" where
  "str_at d k = (case map_of d k of Some (PStr s) \<Rightarrow> Some s | _ \<Rightarrow> None)"

fun node_of :: "pyval \<Rightarrow> node option" where
  "node_of (PDict nd) =
     (case str_at nd ''id'' of
        None \<Rightarrow> None
      | Some i \<Rightarrow>
          (case str_at nd ''type'' of
             None \<Rightarrow> None
           | Some t \<Rightarrow>
               Some \<lparr>node_id = i, node_type = t, node_config = py_get_or_empty nd ''config''\<rparr>))"
| "node_of _ = None"

fun edge_of :: "pyval \<Rightarrow> edge option" where
  "edge_of (PDict ed) =
     (case str_at ed ''from'' of
        None \<Rightarrow> None
      | Some src \<Rightarrow> (case str_at ed ''to'' of None \<Rightarrow> None | Some tgt \<Rightarrow> Some (src, tgt)))"
| "edge_of _ = None"

fun raw_lists :: "pyval \<Rightarrow> (pyval list \<times> pyval list) option" where
  "raw_lists (PDict w) =
     (case map_of w ''nodes'' of
        Some (PList nodes) \<Rightarrow>
          (case map_of w ''edges'' of Some (PList edges) \<Rightarrow> Some (nodes, edges) | _ \<Rightarrow> None)
      | _ \<Rightarrow> None)"
| "raw_lists _ = None"

definition workflow_graph :: "pyval \<Rightarrow> (node list \<times> edge list) option" where
  "workflow_graph workflow =
     (case raw_lists workflow of
        None \<Rightarrow> None
      | Some (raw_nodes, raw_edges) \<Rightarrow>
          (case those (map node_of raw_nodes) of
             None \<Rightarrow> None
           | Some nodes \<Rightarrow>
               (case those (map edge_of raw_edges) of
                  None \<Rightarrow> None
                | Some edges \<Rightarrow> Some (nodes, edges))))"

subsection \<open>Kahn's algorithm\<close>

text \<open>
  \<open>adj[n]\<close> lists the targets of the edges leaving \<open>n\<close>, in edge order; \<open>incoming[n]\<close> counts
  the edges entering \<open>n\<close>.  The source builds both in one pass over the edge list, as
  dictionaries whose keys are the node ids.  The model's functions agree with them on the
  node ids; a subscript with another key (a \<open>KeyError\<close> in the source) does not occur,
  since the structural phase has checked both endpoints of every edge.
\<close>

definition adj_of :: "edge list \<Rightarrow> string \<Rightarrow> string list" where
  "adj_of edges n = map snd (filter (\<lambda>e. fst e = n) edges)"

definition incoming_of :: "edge list \<Rightarrow> string \<Rightarrow> int" where
  "incoming_of edges n = int (length (filter (\<lambda>e. snd e = n) edges))"

text \<open>
  The inner loop \<open>for m in adj[n]: incoming[m] -= 1; if incoming[m] == 0: queue.append(m)\<close>.
\<close>

fun relax ::
  "string list \<Rightarrow> (string \<Rightarrow> int) \<Rightarrow> string list \<Rightarrow> (string \<Rightarrow> int) \<times> string list" where
  "relax [] incoming queue = (incoming, queue)"
| "relax (m # ms) incoming queue =
     (let incoming' = incoming(m := incoming m - 1)
      in relax ms incoming' (if incoming' m = 0 then queue @ [m] else queue))"

text \<open>
  The outer loop \<open>while queue: n = queue.pop(0); topo.append(n); ...\<close>.  It terminates from
  every state: a pass removes the head of the queue, and a node is appended only when its
  counter, which never grows, steps from one to zero.
\<close>

function kahn_loop ::
  "edge list \<Rightarrow> (string \<Rightarrow> int) \<Rightarrow> string list \<Rightarrow> string list \<Rightarrow> string list" where
  "kahn_loop edges incoming [] topo = topo"
| "kahn_loop edges incoming (n # queue) topo =
     (case relax (adj_of edges n) incoming queue of
        (incoming', queue') \<Rightarrow> kahn_loop edges incoming' queue' (topo @ [n]))"
  by pat_completeness auto
termination
proof -
  have relax_measure:
    "length q' + card {x \<in> T. inc' x > 0} \<le> length q + card {x \<in> T. inc x > 0}"
    if "relax ms inc q = (inc', q')" "finite T" "set ms \<subseteq> T"
    for ms inc q inc' q' and T :: "string set"
    using that
  proof (induction ms arbitrary: inc q)
    case Nil
    then show ?case by simp
  next
    case (Cons m ms)
    let ?inc1 = "inc(m := inc m - 1)"
    let ?q1 = "if ?inc1 m = 0 then q @ [m] else q"
    from Cons.prems(1) have r: "relax ms ?inc1 ?q1 = (inc', q')" by (simp add: Let_def)
    from Cons.prems(3) have mT: "m \<in> T" and msT: "set ms \<subseteq> T" by auto
    have step: "length ?q1 + card {x \<in> T. ?inc1 x > 0} \<le> length q + card {x \<in> T. inc x > 0}"
    proof (cases "inc m = 1")
      case True
      have sub: "{x \<in> T. ?inc1 x > 0} \<subseteq> {x \<in> T. inc x > 0} - {m}" using True by auto
      have fin: "finite ({x \<in> T. inc x > 0} - {m})" using Cons.prems(2) by simp
      have c1: "card {x \<in> T. ?inc1 x > 0} \<le> card ({x \<in> T. inc x > 0} - {m})"
        using card_mono[OF fin sub] .
      have "m \<in> {x \<in> T. inc x > 0}" using True mT by simp
      then have "card ({x \<in> T. inc x > 0} - {m}) < card {x \<in> T. inc x > 0}"
        using Cons.prems(2) by (intro card_Diff1_less) auto
      with c1 True show ?thesis by simp
    next
      case False
      have sub: "{x \<in> T. ?inc1 x > 0} \<subseteq> {x \<in> T. inc x > 0}" by auto
      have "card {x \<in> T. ?inc1 x > 0} \<le> card {x \<in> T. inc x > 0}"
        using card_mono[OF _ sub] Cons.prems(2) by simp
      with False show ?thesis by simp
    qed
    from Cons.IH[OF r Cons.prems(2) msT] step show ?case by linarith
  qed
  show ?thesis
  proof (relation "measure (\<lambda>(edges, incoming, queue, topo).
            length queue + card {x \<in> snd ` set edges. incoming x > 0})", goal_cases)
    case 1
    show ?case by simp
  next
    case (2 edges incoming n queue topo x1 x2)
    have "set (adj_of edges n) \<subseteq> snd ` set edges" by (auto simp: adj_of_def)
    from relax_measure[OF 2[symmetric] _ this] show ?case by simp
  qed
qed

text \<open>
  The queue starts with the ids whose counter is zero, in the order of \<open>node_ids\<close>.
\<close>

definition toposort :: "string list \<Rightarrow> edge list \<Rightarrow> string list" where
  "toposort node_ids edges =
     kahn_loop edges (incoming_of edges)
       (filter (\<lambda>nid. incoming_of edges nid = 0) node_ids) []"

definition detect_cycles_and_toposort ::
  "node list \<Rightarrow> edge list \<Rightarrow> string list \<times> ValidationErrorItem list" where
  "detect_cycles_and_toposort nodes edges =
     (let node_ids = map node_id nodes;
          topo = toposort node_ids edges
      in (topo,
          if length topo \<noteq> length node_ids then [ValidationErrorItem ''workflow'' Cycle_detected]
          else []))"

subsection \<open>Reachability from the user\_query node\<close>

text \<open>
  The traversal of \<open>validate_workflow\<close>: \<open>stack.pop()\<close> takes the last element, and the
  neighbours not yet in \<open>reachable\<close> are appended.
\<close>

function reach_loop :: "edge list \<Rightarrow> string list \<Rightarrow> string set \<Rightarrow> string set" where
  "reach_loop edges stack reachable =
     (if stack = [] then reachable
      else let cur = last stack; stack' = butlast stack
           in if cur \<in> reachable then reach_loop edges stack' reachable
              else let reachable' = insert cur reachable
                   in reach_loop edges
                        (stack' @ filter (\<lambda>nb. nb \<notin> reachable') (adj_of edges cur)) reachable')"
  by pat_completeness auto
termination
proof (relation "measures [\<lambda>(edges, stack, reachable).
           card ((set stack \<union> snd ` set edges) - reachable),
         \<lambda>(edges, stack, reachable). length stack]", goal_cases)
  case 1
  show ?case by simp
next
  case (2 edges stack reachable cur stack')
  then have "set stack' \<subseteq> set stack" by (auto dest: in_set_butlastD)
  then have "(set stack' \<union> snd ` set edges) - reachable
        \<subseteq> (set stack \<union> snd ` set edges) - reachable"
    by auto
  then have "card ((set stack' \<union> snd ` set edges) - reachable)
        \<le> card ((set stack \<union> snd ` set edges) - reachable)"
    by (intro card_mono) auto
  moreover have "length stack' < length stack" using 2 by simp
  ultimately show ?case by auto
next
  case (3 edges stack reachable cur stack' reachable')
  let ?new = "stack' @ filter (\<lambda>nb. nb \<notin> reachable') (adj_of edges cur)"
  have a: "set (adj_of edges cur) \<subseteq> snd ` set edges" by (auto simp: adj_of_def)
  have b: "set stack' \<subseteq> set stack" using 3 by (auto dest: in_set_butlastD)
  have c: "cur \<in> set stack" using 3 by simp
  have sub: "(set ?new \<union> snd ` set edges) - reachable'
        \<subseteq> ((set stack \<union> snd ` set edges) - reachable) - {cur}"
    using a b 3 by auto
  have "cur \<in> (set stack \<union> snd ` set edges) - reachable" using c 3 by simp
  then have "card (((set stack \<union> snd ` set edges) - reachable) - {cur})
           < card ((set stack \<union> snd ` set edges) - reachable)"
    by (intro card_Diff1_less) auto
  moreover have "card ((set ?new \<union> snd ` set edges) - reachable')
      \<le> card (((set stack \<union> snd ` set edges) - reachable) - {cur})"
    using sub by (intro card_mono) auto
  ultimately show ?case by simp
qed

declare reach_loop.simps [simp del]

subsection \<open>validate\_workflow\<close>

text \<open>A dictionary comprehension \<open>{k: v for ...}\<close> stores the items in order.\<close>

definition dict_of_items :: "('k \<times> 'v) list \<Rightarrow> ('k \<times> 'v) list" where
  "dict_of_items items = dict_update [] items"

text \<open>
  The graph phase: the items appended after the structural phase, in the order of the
  source.  \<open>find_roots_and_leaves\<close> is called first, but its result is not used.
\<close>

definition connectivity_errors :: "string list \<Rightarrow> node list \<Rightarrow> edge list \<Rightarrow> ValidationErrorItem list" where
  "connectivity_errors user_query_nodes nodes edges =
     (case user_query_nodes of
        [] \<Rightarrow> []
      | start # _ \<Rightarrow>
          (let reachable = reach_loop edges [start] {};
               node_ids = set (map node_id nodes);
               unreachable = node_ids - reachable
           in if unreachable \<noteq> {} then
                [ValidationErrorItem ''connectivity'' (Unreachable_nodes unreachable)]
              else []))"

definition graph_errors :: "bool \<Rightarrow> node list \<Rightarrow> edge list \<Rightarrow> ValidationErrorItem list" where
  "graph_errors require_single_user_query nodes edges =
     (let types_by_id = dict_of_items (map (\<lambda>n. (node_id n, node_type n)) nodes);
          user_query_nodes = map fst (filter (\<lambda>(nid, t). t = ''user_query'') types_by_id);
          output_nodes = map fst (filter (\<lambda>(nid, t). t = ''output'') types_by_id)
      in (if require_single_user_query \<and> length user_query_nodes \<noteq> 1 then
            [ValidationErrorItem ''user_query'' Exactly_one_user_query]
          else []) @
         (if length output_nodes < 1 then [ValidationErrorItem ''output'' At_least_one_output]
          else []) @
         connectivity_errors user_query_nodes nodes edges @
         snd (detect_cycles_and_toposort nodes edges))"

text \<open>
  \<open>validate_workflow\<close> returns \<open>None\<close> (here \<open>Inr ()\<close>) or raises.  After each of the first
  two phases it raises the items collected so far when there are any.  The two \<open>KeyError\<close>
  branches stand for the subscripts of the later phases on a definition that cannot be
  read; they are not reached, because a valid shape gives the two lists and a clean
  structural phase gives the typed view.
\<close>

definition validate_workflow :: "pyval \<Rightarrow> bool \<Rightarrow> exception + unit" where
  "validate_workflow workflow require_single_user_query =
     (let errors = validate_shape workflow
      in if errors \<noteq> [] then Inl (WorkflowValidationError errors)
         else
           (case raw_lists workflow of
              None \<Rightarrow> Inl (KeyError (quoted ''nodes''))
            | Some (raw_nodes, raw_edges) \<Rightarrow>
                (case validate_nodes_and_edges raw_nodes raw_edges of
                   Inl exc \<Rightarrow> Inl exc
                 | Inr errors \<Rightarrow>
                     if errors \<noteq> [] then Inl (WorkflowValidationError errors)
                     else
                       (case workflow_graph workflow of
                          None \<Rightarrow> Inl (KeyError (quoted ''id''))
                        | Some (nodes, edges) \<Rightarrow>
                            (let errors = graph_errors require_single_user_query nodes edges
                             in if errors \<noteq> [] then Inl (WorkflowValidationError errors)
                                else Inr ())))))"

section \<open>executor\_safe.py\<close>

subsection \<open>Components and their environment\<close>

text \<open>
  \<open>COMPONENT_MAP\<close> sends a node type to a component class; the executor builds an instance
  from the node's id and config (\<open>node_cls(id=node_id, config=...)\<close>) and calls its \<open>run\<close>
  on the assembled input.  The four classes are the ones \<open>executor_safe.py\<close> imports from
  its own package: \<open>user_query.py\<close>, \<open>knowledge_base.py\<close>, \<open>llm_engine.py\<close> and \<open>output.py\<close>
  under \<open>app/workflow\<close>.
\<close>

datatype component_class =
    UserQueryComponent
  | KnowledgeBaseComponent
  | LLMEngineComponent
  | OutputComponent

definition COMPONENT_MAP :: "(string \<times> component_class) list" where
  "COMPONENT_MAP =
     [(''user_query'', UserQueryComponent),
      (''knowledge_base'', KnowledgeBaseComponent),
      (''llm_engine'', LLMEngineComponent),
      (''output'', OutputComponent)]"

text \<open>
  An instance is modelled by its class, the id of the node it is built for and its config.
\<close>

record component =
  comp_class :: component_class
  comp_id :: string
  comp_config :: pyval

definition instantiate :: "component_class \<Rightarrow> string \<Rightarrow> pyval \<Rightarrow> component" where
  "instantiate node_cls nid config = \<lparr>comp_class = node_cls, comp_id = nid, comp_config = config\<rparr>"

text \<open>
  The name of a class, and the parameters that its \<open>__init__\<close> declares after \<open>self\<close>.  Each
  of the four classes declares \<open>__init__(self, config)\<close>.
\<close>

fun class_name :: "component_class \<Rightarrow> string" where
  "class_name UserQueryComponent = ''UserQueryComponent''"
| "class_name KnowledgeBaseComponent = ''KnowledgeBaseComponent''"
| "class_name LLMEngineComponent = ''LLMEngineComponent''"
| "class_name OutputComponent = ''OutputComponent''"

fun init_params :: "component_class \<Rightarrow> string list" where
  "init_params UserQueryComponent = [''config'']"
| "init_params KnowledgeBaseComponent = [''config'']"
| "init_params LLMEngineComponent = [''config'']"
| "init_params OutputComponent = [''config'']"

text \<open>
  The constructor call \<open>node_cls(id=node_id, config=...)\<close>.  Python binds the keywords in
  the order in which the call writes them, and the first one that names no parameter of
  \<open>__init__\<close> raises \<open>TypeError\<close> before the body of \<open>__init__\<close> is entered.  When both
  keywords name a parameter the instance is built.
\<close>

definition construct :: "component_class \<Rightarrow> string \<Rightarrow> pyval \<Rightarrow> exception + component" where
  "construct node_cls nid config =
     (case filter (\<lambda>k. k \<notin> set (init_params node_cls)) [''id'', ''config''] of
        k # _ \<Rightarrow>
          Inl (TypeError (class_name node_cls @ ''.__init__() got an unexpected keyword argument ''
                          @ quoted k))
      | [] \<Rightarrow> Inr (instantiate node_cls nid config))"

text \<open>
  What \<open>future.result(timeout=timeout)\<close> delivers for \<open>node_obj.run(inputs)\<close>: the value
  returned, an exception raised by \<open>run\<close> (with its text), or a timeout.  After a timeout
  the \<open>with\<close> block still joins the worker thread, so \<open>TimesOut\<close> is a \<open>run\<close> that takes
  longer than the timeout and then ends.  A \<open>run\<close> that never ends is not an outcome:
  \<open>_safe_run_node\<close> then does not return either.
\<close>

datatype run_outcome =
    Returns pyval
  | Raises string
  | TimesOut

text \<open>
  The environment of a run.  \<open>node_run\<close> is what \<open>node_obj.run(inputs)\<close> does for the object
  handed to \<open>_safe_run_node\<close>, which that function takes as a parameter (on an object
  without a \<open>run\<close> attribute the call raises); \<open>sem_acquire\<close> tells whether
  \<open>_llm_semaphore.acquire(timeout=timeout)\<close> obtains a permit for this invocation;
  \<open>utcnow_iso\<close> is \<open>datetime.utcnow().isoformat()\<close> read when the node of that id starts;
  \<open>exec_duration\<close> and \<open>node_duration\<close> are the two differences of
  \<open>time.perf_counter()\<close> readings taken around the invocation of that node.
\<close>

record env =
  node_run :: "component \<Rightarrow> pydict \<Rightarrow> run_outcome"
  sem_acquire :: "component \<Rightarrow> bool"
  utcnow_iso :: "string \<Rightarrow> string"
  exec_duration :: "string \<Rightarrow> rat"
  node_duration :: "string \<Rightarrow> rat"

subsection \<open>\_safe\_run\_node\<close>

text \<open>
  The semaphore is shared by all runs, so its counter is not a function of this invocation.
  The model records what this invocation does to it: the list of its operations, in order.
\<close>

datatype sem_op = Acquire | Release

text \<open>
  \<open>safe_run_node\<close> is \<open>_safe_run_node\<close>.  The body of \<open>try\<close> yields a result or an
  exception; the \<open>finally\<close> clause runs in both cases; the check that the result is a
  dictionary and the store of \<open>_exec_duration\<close> come after it.
\<close>

definition safe_run_node ::
  "env \<Rightarrow> component \<Rightarrow> pydict \<Rightarrow> sem_op list \<Rightarrow> (exception + pydict) \<times> sem_op list" where
  "safe_run_node e node_obj inputs sem =
     (let is_llm = (comp_class node_obj = LLMEngineComponent)
      in if is_llm \<and> \<not> sem_acquire e node_obj then
           (Inl (NodeExecutionError
                   ''Could not acquire LLM semaphore (too many concurrent LLM calls)''), sem)
         else
           (let sem1 = (if is_llm then sem @ [Acquire] else sem);
                body = (case node_run e node_obj inputs of
                          Returns result \<Rightarrow> Inr result
                        | Raises msg \<Rightarrow> Inl (CapabilityError msg)
                        | TimesOut \<Rightarrow> Inl (NodeExecutionError ''Node execution timed out''));
                sem2 = (if is_llm then sem1 @ [Release] else sem1)
            in case body of
                 Inl exc \<Rightarrow> (Inl exc, sem2)
               | Inr result \<Rightarrow>
                   (case result of
                      PDict r \<Rightarrow>
                        (Inr (dict_set r ''_exec_duration''
                                (PFloat (exec_duration e (comp_id node_obj)))), sem2)
                    | _ \<Rightarrow> (Inl (NodeExecutionError ''Node did not return a dict''), sem2))))"

subsection \<open>execute\_workflow\_safe\<close>

definition parents_of :: "edge list \<Rightarrow> string \<Rightarrow> string list" where
  "parents_of edges n = map fst (filter (\<lambda>e. snd e = n) edges)"

text \<open>\<open>context_map.get(p, {})\<close>.\<close>

definition ctx_get :: "(string \<rightharpoonup> pydict) \<Rightarrow> string \<Rightarrow> pydict" where
  "ctx_get context_map p = (case context_map p of None \<Rightarrow> [] | Some d \<Rightarrow> d)"

text \<open>
  Input assembly: with parents, an empty dictionary updated with each parent's recorded
  output, in the order of \<open>parents[node_id]\<close>; without, the node's own entry of the context.
\<close>

definition assemble_inputs ::
  "(string \<Rightarrow> string list) \<Rightarrow> (string \<rightharpoonup> pydict) \<Rightarrow> string \<Rightarrow> pydict" where
  "assemble_inputs parents context_map nid =
     (if parents nid \<noteq> [] then
        fold (\<lambda>p inputs. dict_update inputs (ctx_get context_map p)) (parents nid) []
      else ctx_get context_map nid)"

definition new_entry :: "env \<Rightarrow> string \<Rightarrow> string \<Rightarrow> pydict" where
  "new_entry e nid ntype =
     [(''node_id'', PStr nid),
      (''node_type'', PStr ntype),
      (''started_at'', PStr (utcnow_iso e nid @ ''Z''))]"

definition success_entry :: "env \<Rightarrow> string \<Rightarrow> string \<Rightarrow> pydict \<Rightarrow> pydict" where
  "success_entry e nid ntype output =
     dict_update (new_entry e nid ntype)
       [(''status'', PStr ''success''),
        (''duration_seconds'', PFloat (node_duration e nid)),
        (''output_keys'', PList (map PStr (dict_keys output)))]"

definition error_entry :: "env \<Rightarrow> string \<Rightarrow> string \<Rightarrow> exception \<Rightarrow> pydict" where
  "error_entry e nid ntype exc =
     dict_update (new_entry e nid ntype)
       [(''status'', PStr ''error''),
        (''error'', PStr (str_exc exc))]"

definition failure_result :: "string \<Rightarrow> string \<Rightarrow> exception \<Rightarrow> pyval list \<Rightarrow> pydict" where
  "failure_result nid ntype exc trace =
     [(''error'', PStr ''Node execution error''),
      (''node_id'', PStr nid),
      (''node_type'', PStr ntype),
      (''error_message'', PStr (str_exc exc)),
      (''trace'', PList trace)]"

record run_state =
  context_map :: "string \<rightharpoonup> pydict"
  trace :: "pyval list"

text \<open>
  How one pass of the loop over \<open>topo\<close> leaves: on to the next node, by the \<open>return\<close> of the
  failure result, or by an exception that nothing catches.
\<close>

datatype flow =
    Next
  | Return pydict
  | Uncaught exception

text \<open>
  One pass of the loop body.  The constructor is called before the \<open>try\<close> block, so an
  exception it raises leaves \<open>execute_workflow_safe\<close> uncaught.  The loop does not look at
  the semaphore, so the log of the invocation's operations on it is dropped here.
\<close>

definition exec_node ::
  "env \<Rightarrow> (string \<times> node) list \<Rightarrow> (string \<Rightarrow> string list) \<Rightarrow> string \<Rightarrow> run_state \<Rightarrow>
   run_state \<times> flow" where
  "exec_node e nodes_meta parents nid st =
     (case map_of nodes_meta nid of
        None \<Rightarrow> (st, Uncaught (KeyError (quoted nid)))
      | Some node_meta \<Rightarrow>
          (case map_of COMPONENT_MAP (node_type node_meta) of
             None \<Rightarrow> (st, Next)
           | Some node_cls \<Rightarrow>
               (case construct node_cls nid (node_config node_meta) of
                  Inl exc \<Rightarrow> (st, Uncaught exc)
                | Inr node_instance \<Rightarrow>
                    (let ntype = node_type node_meta;
                         inputs = assemble_inputs parents (context_map st) nid
                     in case fst (safe_run_node e node_instance inputs []) of
                          Inr output \<Rightarrow>
                            (\<lparr>context_map = (context_map st)(nid \<mapsto> output),
                              trace = trace st @ [PDict (success_entry e nid ntype output)]\<rparr>,
                             Next)
                        | Inl exc \<Rightarrow>
                            (let trace' = trace st @ [PDict (error_entry e nid ntype exc)]
                             in (\<lparr>context_map = context_map st, trace = trace'\<rparr>,
                                 Return (failure_result nid ntype exc trace')))))))"

fun run_nodes ::
  "env \<Rightarrow> (string \<times> node) list \<Rightarrow> (string \<Rightarrow> string list) \<Rightarrow> string list \<Rightarrow> run_state \<Rightarrow>
   run_state \<times> flow" where
  "run_nodes e nodes_meta parents [] st = (st, Next)"
| "run_nodes e nodes_meta parents (nid # rest) st =
     (case exec_node e nodes_meta parents nid st of
        (st', Next) \<Rightarrow> run_nodes e nodes_meta parents rest st'
      | (st', Return r) \<Rightarrow> (st', Return r)
      | (st', Uncaught exc) \<Rightarrow> (st', Uncaught exc))"

text \<open>
  The part of \<open>execute_workflow_safe\<close> after validation, on the typed view: the state in
  which the loop over \<open>topo\<close> ends and the way it ends.
\<close>

definition nodes_meta_of :: "node list \<Rightarrow> (string \<times> node) list" where
  "nodes_meta_of nodes = dict_of_items (map (\<lambda>n. (node_id n, n)) nodes)"

definition engine_order :: "node list \<Rightarrow> edge list \<Rightarrow> string list" where
  "engine_order nodes edges = toposort (dict_keys (nodes_meta_of nodes)) edges"

text \<open>
  The state before the loop: the context holds \<open>{"query": user_query}\<close> under the first
  user\_query node, the trace is the one handed in.  \<open>None\<close> is the \<open>NodeExecutionError\<close>
  raised when there is no user\_query node.
\<close>

definition initial_state :: "node list \<Rightarrow> string \<Rightarrow> pyval list \<Rightarrow> run_state option" where
  "initial_state nodes user_query trace0 =
     (let user_nodes =
            map fst (filter (\<lambda>(nid, meta). node_type meta = ''user_query'') (nodes_meta_of nodes))
      in case user_nodes of
           [] \<Rightarrow> None
         | start_node_id # _ \<Rightarrow>
             Some \<lparr>context_map = [start_node_id \<mapsto> [(''query'', PStr user_query)]],
                   trace = trace0\<rparr>)"

definition run_loop ::
  "env \<Rightarrow> node list \<Rightarrow> edge list \<Rightarrow> string \<Rightarrow> pyval list \<Rightarrow> (run_state \<times> flow) option" where
  "run_loop e nodes edges user_query trace0 =
     (case initial_state nodes user_query trace0 of
        None \<Rightarrow> None
      | Some st0 \<Rightarrow>
          Some (run_nodes e (nodes_meta_of nodes) (parents_of edges) (engine_order nodes edges) st0))"

definition final_result :: "node list \<Rightarrow> run_state \<Rightarrow> pydict" where
  "final_result nodes st =
     (let output_nodes =
            map fst (filter (\<lambda>(nid, meta). node_type meta = ''output'') (nodes_meta_of nodes));
          final_outputs = map (ctx_get (context_map st)) output_nodes;
          final = (case final_outputs of [] \<Rightarrow> [] | first # _ \<Rightarrow> first)
      in [(''result'', PDict final), (''trace'', PList (trace st))])"

text \<open>
  \<open>execute_workflow_safe workflow user_query trace\<close>; an absent \<open>trace\<close> argument is the
  empty list.
\<close>

definition execute_workflow_safe ::
  "env \<Rightarrow> pyval \<Rightarrow> string \<Rightarrow> pyval list \<Rightarrow> exception + pydict" where
  "execute_workflow_safe e workflow user_query trace0 =
     (case validate_workflow workflow True of
        Inl exc \<Rightarrow> Inl exc
      | Inr _ \<Rightarrow>
          (case workflow_graph workflow of
             None \<Rightarrow> Inl (KeyError (quoted ''nodes''))
           | Some (nodes, edges) \<Rightarrow>
               (case run_loop e nodes edges user_query trace0 of
                  None \<Rightarrow> Inl (NodeExecutionError ''No user_query node found'')
                | Some (st, Return r) \<Rightarrow> Inr r
                | Some (st, Uncaught exc) \<Rightarrow> Inl exc
                | Some (st, Next) \<Rightarrow> Inr (final_result nodes st))))"

section \<open>Properties of orders and definitions\<close>

text \<open>
  \<open>precedes xs a b\<close>: \<open>b\<close> occurs in \<open>xs\<close> after the first occurrence of \<open>a\<close>.
\<close>

fun precedes :: "'a list \<Rightarrow> 'a \<Rightarrow> 'a \<Rightarrow> bool" where
  "precedes [] a b = False"
| "precedes (x # xs) a b = (if x = a then b \<in> set xs else precedes xs a b)"

text \<open>
  What the structural phase establishes about the typed view: the ids are distinct and
  non-empty, every type is registered, every config is a dictionary, and every edge joins
  two nodes of the definition.
\<close>

definition well_formed :: "node list \<Rightarrow> edge list \<Rightarrow> bool" where
  "well_formed nodes edges \<longleftrightarrow>
     distinct (map node_id nodes) \<and>
     (\<forall>n \<in> set nodes. node_id n \<noteq> [] \<and> node_type n \<in> NODE_TYPES \<and> is_dict (node_config n)) \<and>
     (\<forall>(s, t) \<in> set edges. s \<in> node_id ` set nodes \<and> t \<in> node_id ` set nodes)"

text \<open>
  The merge the specification describes for the outputs of the direct predecessors, listed
  in edge order: for each key, the value of the last output in the list that has the key.
\<close>

fun merge_later_wins :: "pydict list \<Rightarrow> string \<Rightarrow> pyval option" where
  "merge_later_wins [] k = None"
| "merge_later_wins (d # ds) k =
     (case merge_later_wins ds k of Some v \<Rightarrow> Some v | None \<Rightarrow> map_of d k)"

section \<open>Example definitions and environments\<close>

definition mk_node :: "string \<Rightarrow> string \<Rightarrow> pyval" where
  "mk_node i t = PDict [(''id'', PStr i), (''type'', PStr t)]"

definition mk_edge :: "string \<Rightarrow> string \<Rightarrow> pyval" where
  "mk_edge s t = PDict [(''from'', PStr s), (''to'', PStr t)]"

definition mk_workflow :: "pyval list \<Rightarrow> pyval list \<Rightarrow> pyval" where
  "mk_workflow nodes edges = PDict [(''nodes'', PList nodes), (''edges'', PList edges)]"

text \<open>
  An environment with the given behaviour of \<open>run\<close> and of the permit, and clocks that read
  zero.
\<close>

definition env_of :: "(component \<Rightarrow> pydict \<Rightarrow> run_outcome) \<Rightarrow> bool \<Rightarrow> env" where
  "env_of run acquired =
     \<lparr>node_run = run, sem_acquire = (\<lambda>c. acquired), utcnow_iso = (\<lambda>nid. ''2024-01-01T00:00:00''),
      exec_duration = (\<lambda>nid. 0), node_duration = (\<lambda>nid. 0)\<rparr>"

definition llm_instance :: component where
  "llm_instance = \<lparr>comp_class = LLMEngineComponent, comp_id = ''l'', comp_config = PDict []\<rparr>"

text \<open>The chain \<open>entry -> A -> B -> terminal\<close>.\<close>

definition chain :: pyval where
  "chain = mk_workflow
     [mk_node ''entry'' ''user_query'', mk_node ''A'' ''knowledge_base'',
      mk_node ''B'' ''llm_engine'', mk_node ''terminal'' ''output'']
     [mk_edge ''entry'' ''A'', mk_edge ''A'' ''B'', mk_edge ''B'' ''terminal'']"

definition typed_node :: "string \<Rightarrow> string \<Rightarrow> node" where
  "typed_node i t = \<lparr>node_id = i, node_type = t, node_config = PDict []\<rparr>"

definition chain_nodes :: "node list" where
  "chain_nodes =
     [typed_node ''entry'' ''user_query'', typed_node ''A'' ''knowledge_base'',
      typed_node ''B'' ''llm_engine'', typed_node ''terminal'' ''output'']"

definition chain_edges :: "edge list" where
  "chain_edges = [(''entry'', ''A''), (''A'', ''B''), (''B'', ''terminal'')]"

text \<open>A query node and an output node, with a self-loop on the output node.\<close>

definition looped :: pyval where
  "looped = mk_workflow
     [mk_node ''q'' ''user_query'', mk_node ''o'' ''output'']
     [mk_edge ''q'' ''o'', mk_edge ''o'' ''o'']"

text \<open>
  A query node with two output nodes, \<open>o2\<close> listed before \<open>o1\<close> among the nodes and the
  edge to \<open>o1\<close> listed before the edge to \<open>o2\<close>.
\<close>

definition fork :: pyval where
  "fork = mk_workflow
     [mk_node ''q'' ''user_query'', mk_node ''o2'' ''output'', mk_node ''o1'' ''output'']
     [mk_edge ''q'' ''o1'', mk_edge ''q'' ''o2'']"

definition fork_nodes :: "node list" where
  "fork_nodes =
     [typed_node ''q'' ''user_query'', typed_node ''o2'' ''output'', typed_node ''o1'' ''output'']"

definition fork_edges :: "edge list" where
  "fork_edges = [(''q'', ''o1''), (''q'', ''o2'')]"

text \<open>
  A diamond: the query node feeds \<open>a\<close> and \<open>b\<close>, and both feed the output node; the edge from
  \<open>b\<close> to \<open>o\<close> is the later one.
\<close>

definition diamond :: pyval where
  "diamond = mk_workflow
     [mk_node ''q'' ''user_query'', mk_node ''a'' ''knowledge_base'',
      mk_node ''b'' ''llm_engine'', mk_node ''o'' ''output'']
     [mk_edge ''q'' ''a'', mk_edge ''q'' ''b'', mk_edge ''a'' ''o'', mk_edge ''b'' ''o'']"

definition diamond_nodes :: "node list" where
  "diamond_nodes =
     [typed_node ''q'' ''user_query'', typed_node ''a'' ''knowledge_base'',
      typed_node ''b'' ''llm_engine'', typed_node ''o'' ''output'']"

definition diamond_edges :: "edge list" where
  "diamond_edges = [(''q'', ''a''), (''q'', ''b''), (''a'', ''o''), (''b'', ''o'')]"

text \<open>
  A definition with two structural violations: the type of the first node is a list, and
  the second node has no id and an unregistered type.
\<close>

definition unhashable_type :: pyval where
  "unhashable_type = mk_workflow
     [PDict [(''id'', PStr ''a''), (''type'', PList [])],
      PDict [(''type'', PStr ''bogus'')]]
     []"

text \<open>The same definition with a string in place of the list.\<close>

definition unknown_type :: pyval where
  "unknown_type = mk_workflow
     [PDict [(''id'', PStr ''a''), (''type'', PStr ''list'')],
      PDict [(''type'', PStr ''bogus'')]]
     []"

text \<open>Two user\_query nodes, no output node, and a self-loop on the second node.\<close>

definition two_entries_nodes :: "node list" where
  "two_entries_nodes = [typed_node ''q1'' ''user_query'', typed_node ''q2'' ''user_query'']"

definition two_entries_edges :: "edge list" where
  "two_entries_edges = [(''q2'', ''q2'')]"

text \<open>A query node that feeds an output node.\<close>

definition pair :: pyval where
  "pair = mk_workflow
     [mk_node ''q'' ''user_query'', mk_node ''o'' ''output'']
     [mk_edge ''q'' ''o'']"

definition pair_nodes :: "node list" where
  "pair_nodes = [typed_node ''q'' ''user_query'', typed_node ''o'' ''output'']"

definition pair_edges :: "edge list" where
  "pair_edges = [(''q'', ''o'')]"



section \<open>Kahn's algorithm: the order it computes\<close>

lemma precedes_append: "precedes xs a b \<Longrightarrow> precedes (xs @ ys) a b"
  by (induction xs) auto

lemma precedes_snoc: "a \<in> set xs \<Longrightarrow> precedes (xs @ [b]) a b"
  by (induction xs) auto

lemma precedes_in_set: "precedes xs a b \<Longrightarrow> a \<in> set xs \<and> b \<in> set xs"
  by (induction xs) (auto split: if_splits)

lemma precedes_irrefl: "distinct xs \<Longrightarrow> \<not> precedes xs a a"
  by (induction xs) auto

lemma precedes_trans: "distinct xs \<Longrightarrow> precedes xs a b \<Longrightarrow> precedes xs b c \<Longrightarrow> precedes xs a c"
proof (induction xs)
  case Nil
  then show ?case by simp
next
  case (Cons x xs)
  show ?case
  proof (cases "x = a")
    case True
    with Cons.prems have "b \<in> set xs" "x \<noteq> b" by auto
    with Cons.prems have "precedes xs b c" by simp
    then have "c \<in> set xs" by (simp add: precedes_in_set)
    with True show ?thesis by simp
  next
    case False
    with Cons.prems have ab: "precedes xs a b" by simp
    then have "b \<in> set xs" by (simp add: precedes_in_set)
    with Cons.prems have "x \<noteq> b" by auto
    with Cons.prems have "precedes xs b c" by simp
    with Cons ab False show ?thesis by simp
  qed
qed

lemma relax_incoming: "fst (relax ms inc q) m = inc m - int (count_list ms m)"
  by (induction ms arbitrary: inc q) (auto simp: Let_def)

lemma relax_queue:
  "\<exists>app. snd (relax ms inc q) = q @ app \<and> distinct app \<and>
         set app = {m \<in> set ms. 1 \<le> inc m \<and> inc m \<le> int (count_list ms m)}"
proof (induction ms arbitrary: inc q)
  case Nil
  then show ?case by simp
next
  case (Cons m ms)
  let ?inc1 = "inc(m := inc m - 1)"
  show ?case
  proof (cases "inc m = 1")
    case True
    from Cons.IH[of ?inc1 "q @ [m]"] obtain app where
      app: "snd (relax ms ?inc1 (q @ [m])) = (q @ [m]) @ app" "distinct app"
        "set app = {x \<in> set ms. 1 \<le> ?inc1 x \<and> ?inc1 x \<le> int (count_list ms x)}" by blast
    have "m \<notin> set app" using app(3) True by simp
    moreover have "set (m # app) = {x \<in> set (m # ms). 1 \<le> inc x \<and> inc x \<le> int (count_list (m # ms) x)}"
      using app(3) True by auto
    moreover have "snd (relax (m # ms) inc q) = q @ (m # app)" using app(1) True by (simp add: Let_def)
    ultimately show ?thesis using app(2) by (intro exI[of _ "m # app"]) simp
  next
    case False
    from Cons.IH[of ?inc1 q] obtain app where
      app: "snd (relax ms ?inc1 q) = q @ app" "distinct app"
        "set app = {x \<in> set ms. 1 \<le> ?inc1 x \<and> ?inc1 x \<le> int (count_list ms x)}" by blast
    have "set app = {x \<in> set (m # ms). 1 \<le> inc x \<and> inc x \<le> int (count_list (m # ms) x)}"
    proof (intro set_eqI iffI)
      fix x assume "x \<in> set app"
      then show "x \<in> {x \<in> set (m # ms). 1 \<le> inc x \<and> inc x \<le> int (count_list (m # ms) x)}"
        using app(3) by (auto split: if_splits)
    next
      fix x assume x: "x \<in> {x \<in> set (m # ms). 1 \<le> inc x \<and> inc x \<le> int (count_list (m # ms) x)}"
      show "x \<in> set app"
      proof (cases "x = m")
        case True
        with x False have "2 \<le> inc m" "inc m \<le> int (count_list ms m) + 1" by auto
        then have "count_list ms m > 0" by linarith
        then have "m \<in> set ms" using count_list_0_iff[of ms m] by auto
        with True \<open>2 \<le> inc m\<close> \<open>inc m \<le> int (count_list ms m) + 1\<close> show ?thesis
          using app(3) by simp
      next
        case False
        with x show ?thesis using app(3) by auto
      qed
    qed
    moreover have "snd (relax (m # ms) inc q) = q @ app" using app(1) False by (simp add: Let_def)
    ultimately show ?thesis using app(2) by blast
  qed
qed

lemma count_adj: "count_list (adj_of E n) m = length (filter (\<lambda>e. fst e = n \<and> snd e = m) E)"
  by (induction E) (auto simp: adj_of_def)

lemma filter_split_length:
  "length (filter P xs) = length (filter (\<lambda>x. P x \<and> Q x) xs) + length (filter (\<lambda>x. P x \<and> \<not> Q x) xs)"
  by (induction xs) auto

lemma pending_step:
  assumes "n \<notin> set topo"
  shows "int (length (filter (\<lambda>e. snd e = m \<and> fst e \<notin> set (topo @ [n])) E)) =
         int (length (filter (\<lambda>e. snd e = m \<and> fst e \<notin> set topo) E)) - int (count_list (adj_of E n) m)"
proof -
  have a: "(\<lambda>e. (snd e = m \<and> fst e \<notin> set topo) \<and> fst e = n) = (\<lambda>e. fst e = n \<and> snd e = m)"
    using assms by auto
  have b: "(\<lambda>e. (snd e = m \<and> fst e \<notin> set topo) \<and> fst e \<noteq> n) = (\<lambda>e. snd e = m \<and> fst e \<notin> set (topo @ [n]))"
    by auto
  show ?thesis
    using filter_split_length[of "\<lambda>e. snd e = m \<and> fst e \<notin> set topo" E "\<lambda>e. fst e = n"]
    unfolding a b count_adj by simp
qed

lemma kahn_loop_sound:
  assumes "distinct (topo @ q)"
    and "\<forall>m. inc m = int (length (filter (\<lambda>e. snd e = m \<and> fst e \<notin> set topo) E))"
    and "\<forall>m \<in> set (topo @ q). inc m = 0"
    and "\<forall>(s, t) \<in> set E. t \<in> set topo \<longrightarrow> precedes topo s t"
    and "set (topo @ q) \<subseteq> N" and "snd ` set E \<subseteq> N"
  shows "distinct (kahn_loop E inc q topo) \<and> set (kahn_loop E inc q topo) \<subseteq> N \<and>
         (\<forall>(s, t) \<in> set E. t \<in> set (kahn_loop E inc q topo) \<longrightarrow> precedes (kahn_loop E inc q topo) s t)"
  using assms
proof (induction E inc q topo rule: kahn_loop.induct)
  case (1 edges incoming topo)
  then show ?case by simp
next
  case (2 E inc n q topo)
  obtain inc' q' where r: "relax (adj_of E n) inc q = (inc', q')" by fastforce
  have n_notin: "n \<notin> set topo" using "2.prems"(1) by auto
  have inc': "inc' m = inc m - int (count_list (adj_of E n) m)" for m
    using relax_incoming[of "adj_of E n" inc q m] r by simp
  from relax_queue[of "adj_of E n" inc q] r obtain app where
    app: "q' = q @ app" "distinct app"
      "set app = {m \<in> set (adj_of E n). 1 \<le> inc m \<and> inc m \<le> int (count_list (adj_of E n) m)}"
    by auto
  have pend: "inc' m = int (length (filter (\<lambda>e. snd e = m \<and> fst e \<notin> set (topo @ [n])) E))" for m
    using pending_step[OF n_notin, of m E] inc'[of m] "2.prems"(2) by simp
  have nonneg: "0 \<le> inc' m" for m using pend[of m] by simp
  have zero_old: "inc' m = 0" if "m \<in> set (topo @ n # q)" for m
  proof -
    have "inc m = 0" using "2.prems"(3) that by auto
    with inc'[of m] nonneg[of m] show ?thesis by linarith
  qed
  have zero_app: "inc' m = 0" if "m \<in> set app" for m
    using that app(3) inc'[of m] nonneg[of m] by auto
  have disj: "m \<notin> set (topo @ n # q)" if "m \<in> set app" for m
  proof
    assume "m \<in> set (topo @ n # q)"
    then have "inc m = 0" using "2.prems"(3) by auto
    with that app(3) show False by auto
  qed
  have d: "distinct ((topo @ [n]) @ q')"
    using "2.prems"(1) app(1,2) disj by auto
  have z: "\<forall>m \<in> set ((topo @ [n]) @ q'). inc' m = 0"
    using zero_old zero_app app(1) by auto
  have preds_n: "s \<in> set topo" if "(s, n) \<in> set E" for s
  proof (rule ccontr)
    assume "s \<notin> set topo"
    with that have "(s, n) \<in> set (filter (\<lambda>e. snd e = n \<and> fst e \<notin> set topo) E)" by simp
    then have "length (filter (\<lambda>e. snd e = n \<and> fst e \<notin> set topo) E) > 0"
      by (rule length_pos_if_in_set)
    moreover have "inc n = 0" using "2.prems"(3) by simp
    ultimately show False using "2.prems"(2) by simp
  qed
  have t: "\<forall>(s, t) \<in> set E. t \<in> set (topo @ [n]) \<longrightarrow> precedes (topo @ [n]) s t"
  proof (clarify)
    fix s t assume e: "(s, t) \<in> set E" and "t \<in> set (topo @ [n])"
    then consider "t \<in> set topo" | "t = n" "t \<notin> set topo" by auto
    then show "precedes (topo @ [n]) s t"
    proof cases
      case 1
      with e "2.prems"(4) have "precedes topo s t" by auto
      then show ?thesis by (rule precedes_append)
    next
      case 2
      with e preds_n have "s \<in> set topo" by simp
      with 2 show ?thesis by (simp add: precedes_snoc)
    qed
  qed
  have "set app \<subseteq> snd ` set E" using app(3) by (auto simp: adj_of_def)
  then have sub: "set ((topo @ [n]) @ q') \<subseteq> N" using "2.prems"(5,6) app(1) by auto
  have p: "\<forall>m. inc' m = int (length (filter (\<lambda>e. snd e = m \<and> fst e \<notin> set (topo @ [n])) E))"
    using pend by simp
  from "2.IH"[OF r[symmetric] d p z t sub "2.prems"(6)] r show ?case by simp
qed

lemma kahn_loop_fifo: "\<exists>rest. kahn_loop E inc q topo = topo @ q @ rest"
proof (induction E inc q topo rule: kahn_loop.induct)
  case (1 edges incoming topo)
  then show ?case by simp
next
  case (2 E inc n q topo)
  obtain inc' q' where r: "relax (adj_of E n) inc q = (inc', q')" by (cases "relax (adj_of E n) inc q")
  from relax_queue[of "adj_of E n" inc q] r obtain app where app: "q' = q @ app" by auto
  from "2.IH"[OF r[symmetric]] obtain rest where
    "kahn_loop E inc' q' (topo @ [n]) = (topo @ [n]) @ q' @ rest" by blast
  with r app have "kahn_loop E inc (n # q) topo = topo @ (n # q) @ (app @ rest)" by simp
  then show ?case by blast
qed

lemma toposort_sound:
  assumes "distinct N" and "snd ` set E \<subseteq> set N"
  shows "distinct (toposort N E) \<and> set (toposort N E) \<subseteq> set N \<and>
         (\<forall>(s, t) \<in> set E. t \<in> set (toposort N E) \<longrightarrow> precedes (toposort N E) s t)"
  unfolding toposort_def
proof (rule kahn_loop_sound)
  show "distinct ([] @ filter (\<lambda>nid. incoming_of E nid = 0) N)" using assms(1) by simp
  show "\<forall>m. incoming_of E m = int (length (filter (\<lambda>e. snd e = m \<and> fst e \<notin> set []) E))"
    by (simp add: incoming_of_def)
  show "\<forall>m\<in>set ([] @ filter (\<lambda>nid. incoming_of E nid = 0) N). incoming_of E m = 0" by simp
  show "\<forall>(s, t)\<in>set E. t \<in> set [] \<longrightarrow> precedes [] s t" by simp
  show "set ([] @ filter (\<lambda>nid. incoming_of E nid = 0) N) \<subseteq> set N" by auto
  show "snd ` set E \<subseteq> set N" by (rule assms(2))
qed

lemma precedes_path:
  assumes "distinct xs" and "\<forall>(s, t) \<in> set E. t \<in> set xs \<longrightarrow> precedes xs s t"
    and "(a, b) \<in> (set E)\<^sup>+" and "b \<in> set xs"
  shows "precedes xs a b"
  using assms(3,4)
proof (induction rule: trancl_induct)
  case (base y)
  with assms(2) show ?case by auto
next
  case (step y z)
  from step.hyps(2) step.prems assms(2) have yz: "precedes xs y z" by auto
  then have "y \<in> set xs" by (simp add: precedes_in_set)
  from step.IH[OF this] yz show ?case using precedes_trans[OF assms(1)] by blast
qed

lemma cycle_not_sorted:
  assumes "distinct xs" and "\<forall>(s, t) \<in> set E. t \<in> set xs \<longrightarrow> precedes xs s t"
    and "(n, n) \<in> (set E)\<^sup>+"
  shows "n \<notin> set xs"
  using precedes_path[OF assms(1,2,3)] precedes_irrefl[OF assms(1)] by blast

lemma toposort_length_le:
  assumes "distinct N" and "snd ` set E \<subseteq> set N"
  shows "length (toposort N E) \<le> length N"
proof -
  from toposort_sound[OF assms] have d: "distinct (toposort N E)" and s: "set (toposort N E) \<subseteq> set N"
    by auto
  have "card (set (toposort N E)) \<le> card (set N)" using s by (intro card_mono) auto
  then show ?thesis using d assms(1) by (simp add: distinct_card)
qed

lemma toposort_complete:
  assumes "distinct N" and "snd ` set E \<subseteq> set N" and "length (toposort N E) = length N"
  shows "set (toposort N E) = set N"
proof -
  from toposort_sound[OF assms(1,2)] have d: "distinct (toposort N E)" and s: "set (toposort N E) \<subseteq> set N"
    by auto
  have "card (set (toposort N E)) = card (set N)" using d assms(1,3) by (simp add: distinct_card)
  with s show ?thesis by (intro card_subset_eq) auto
qed

lemma toposort_cycle_short:
  assumes "distinct N" and "snd ` set E \<subseteq> set N" and "(n, n) \<in> (set E)\<^sup>+"
  shows "length (toposort N E) < length N"
proof -
  from toposort_sound[OF assms(1,2)] have d: "distinct (toposort N E)" and s: "set (toposort N E) \<subseteq> set N"
    and t: "\<forall>(s, t) \<in> set E. t \<in> set (toposort N E) \<longrightarrow> precedes (toposort N E) s t"
    by auto
  have "n \<notin> set (toposort N E)" by (rule cycle_not_sorted[OF d t assms(3)])
  moreover have "n \<in> snd ` set E" using assms(3) by (metis Range.intros Range_snd trancl_range)
  ultimately have "set (toposort N E) \<subset> set N" using s assms(2) by auto
  then have "card (set (toposort N E)) < card (set N)" by (intro psubset_card_mono) auto
  then show ?thesis using d assms(1) by (simp add: distinct_card)
qed

lemma sorted_acyclic:
  assumes "distinct N" and "snd ` set E \<subseteq> set N" and "length (toposort N E) = length N"
  shows "(n, n) \<notin> (set E)\<^sup>+"
  using toposort_cycle_short[OF assms(1,2)] assms(3) by fastforce

lemma reach_loop_sound: "reach_loop E stack R \<subseteq> R \<union> (set E)\<^sup>* `` set stack"
proof (induction E stack R rule: reach_loop.induct)
  case (1 E stack R)
  show ?case
  proof (cases "stack = []")
    case True
    then show ?thesis by (simp add: reach_loop.simps)
  next
    case ne: False
    let ?cur = "last stack" and ?st = "butlast stack"
    have st: "set ?st \<subseteq> set stack" by (auto dest: in_set_butlastD)
    have cur: "?cur \<in> set stack" using ne by simp
    show ?thesis
    proof (cases "?cur \<in> R")
      case True
      from "1.IH"(1)[OF ne refl refl True] have "reach_loop E ?st R \<subseteq> R \<union> (set E)\<^sup>* `` set ?st" .
      moreover have "reach_loop E stack R = reach_loop E ?st R"
        using ne True by (subst reach_loop.simps) (simp add: Let_def)
      ultimately show ?thesis using st by auto
    next
      case False
      let ?R' = "insert ?cur R"
      let ?new = "?st @ filter (\<lambda>nb. nb \<notin> ?R') (adj_of E ?cur)"
      from "1.IH"(2)[OF ne refl refl False refl]
      have ih: "reach_loop E ?new ?R' \<subseteq> ?R' \<union> (set E)\<^sup>* `` set ?new" .
      have eq: "reach_loop E stack R = reach_loop E ?new ?R'"
        using ne False by (subst reach_loop.simps) (simp add: Let_def)
      have adj: "set (adj_of E ?cur) \<subseteq> set E `` {?cur}" by (auto simp: adj_of_def)
      have sub: "(set E)\<^sup>* `` set ?new \<subseteq> (set E)\<^sup>* `` set stack"
      proof
        fix x assume "x \<in> (set E)\<^sup>* `` set ?new"
        then obtain y where y: "y \<in> set ?new" "(y, x) \<in> (set E)\<^sup>*" by auto
        then consider "y \<in> set ?st" | "y \<in> set (adj_of E ?cur)" by auto
        then show "x \<in> (set E)\<^sup>* `` set stack"
        proof cases
          case 1
          with st y(2) show ?thesis by auto
        next
          case 2
          with adj have "(?cur, y) \<in> set E" by auto
          with y(2) have "(?cur, x) \<in> (set E)\<^sup>*" by (meson converse_rtrancl_into_rtrancl)
          with cur show ?thesis by auto
        qed
      qed
      have c: "?cur \<in> (set E)\<^sup>* `` set stack" using cur by auto
      have "reach_loop E ?new ?R' \<subseteq> R \<union> (set E)\<^sup>* `` set stack"
        using ih sub c by blast
      then show ?thesis unfolding eq .
    qed
  qed
qed

text \<open>
  Completeness of the order: when the loop ends, every node that was not emitted still has
  an incoming edge from a node that was not emitted; so a graph without directed cycle is
  emitted in full, and a short order comes from a cycle.
\<close>

lemma kahn_loop_complete:
  assumes "distinct (topo @ q)"
    and "\<forall>m. inc m = int (length (filter (\<lambda>e. snd e = m \<and> fst e \<notin> set topo) E))"
    and "\<forall>m \<in> set (topo @ q). inc m = 0"
    and "\<forall>m \<in> N. inc m = 0 \<longrightarrow> m \<in> set (topo @ q)"
  shows "\<forall>m \<in> N. m \<notin> set (kahn_loop E inc q topo) \<longrightarrow>
           (\<exists>s. (s, m) \<in> set E \<and> s \<notin> set (kahn_loop E inc q topo))"
  using assms
proof (induction E inc q topo rule: kahn_loop.induct)
  case (1 E inc topo)
  show ?case
  proof (intro ballI impI)
    fix m assume m: "m \<in> N" "m \<notin> set (kahn_loop E inc [] topo)"
    then have "inc m \<noteq> 0" using "1.prems"(4) by auto
    with "1.prems"(2) have "filter (\<lambda>e. snd e = m \<and> fst e \<notin> set topo) E \<noteq> []" by auto
    then obtain e where "e \<in> set E" "snd e = m" "fst e \<notin> set topo"
      by (auto simp: filter_empty_conv)
    then have "(fst e, m) \<in> set E \<and> fst e \<notin> set (kahn_loop E inc [] topo)" by auto
    then show "\<exists>s. (s, m) \<in> set E \<and> s \<notin> set (kahn_loop E inc [] topo)" ..
  qed
next
  case (2 E inc n q topo)
  obtain inc' q' where r: "relax (adj_of E n) inc q = (inc', q')"
    by (cases "relax (adj_of E n) inc q")
  have n_notin: "n \<notin> set topo" using "2.prems"(1) by auto
  have inc': "inc' m = inc m - int (count_list (adj_of E n) m)" for m
    using relax_incoming[of "adj_of E n" inc q m] r by simp
  from relax_queue[of "adj_of E n" inc q] r obtain app where
    app: "q' = q @ app" "distinct app"
      "set app = {m \<in> set (adj_of E n). 1 \<le> inc m \<and> inc m \<le> int (count_list (adj_of E n) m)}"
    by auto
  have pend: "inc' m = int (length (filter (\<lambda>e. snd e = m \<and> fst e \<notin> set (topo @ [n])) E))" for m
    using pending_step[OF n_notin, of m E] inc'[of m] "2.prems"(2) by simp
  have nonneg: "0 \<le> inc' m" for m using pend[of m] by simp
  have nonneg0: "0 \<le> inc m" for m using "2.prems"(2) by simp
  have zero_old: "inc' m = 0" if "m \<in> set (topo @ n # q)" for m
  proof -
    have "inc m = 0" using "2.prems"(3) that by auto
    with inc'[of m] nonneg[of m] show ?thesis by linarith
  qed
  have zero_app: "inc' m = 0" if "m \<in> set app" for m
    using that app(3) inc'[of m] nonneg[of m] by auto
  have disj: "m \<notin> set (topo @ n # q)" if "m \<in> set app" for m
  proof
    assume "m \<in> set (topo @ n # q)"
    then have "inc m = 0" using "2.prems"(3) by auto
    with that app(3) show False by auto
  qed
  have d: "distinct ((topo @ [n]) @ q')"
    using "2.prems"(1) app(1,2) disj by auto
  have z: "\<forall>m \<in> set ((topo @ [n]) @ q'). inc' m = 0"
    using zero_old zero_app app(1) by auto
  have p: "\<forall>m. inc' m = int (length (filter (\<lambda>e. snd e = m \<and> fst e \<notin> set (topo @ [n])) E))"
    using pend by simp
  have c: "\<forall>m \<in> N. inc' m = 0 \<longrightarrow> m \<in> set ((topo @ [n]) @ q')"
  proof (intro ballI impI)
    fix m assume m: "m \<in> N" "inc' m = 0"
    show "m \<in> set ((topo @ [n]) @ q')"
    proof (cases "inc m = 0")
      case True
      with "2.prems"(4) m(1) have "m \<in> set (topo @ n # q)" by blast
      then show ?thesis using app(1) by auto
    next
      case False
      with nonneg0[of m] have pos: "1 \<le> inc m" by linarith
      from m(2) inc'[of m] have eq: "inc m = int (count_list (adj_of E n) m)" by simp
      with pos have "count_list (adj_of E n) m > 0" by linarith
      then have "m \<in> set (adj_of E n)" using count_list_0_iff[of "adj_of E n" m] by auto
      with pos eq have "m \<in> set app" using app(3) by simp
      then show ?thesis using app(1) by simp
    qed
  qed
  from "2.IH"[OF r[symmetric] d p z c] r show ?case by simp
qed

lemma toposort_complete_acyclic:
  assumes d: "distinct N" and src: "fst ` set E \<subseteq> set N"
    and acyc: "\<forall>x. (x, x) \<notin> (set E)\<^sup>+"
  shows "set N \<subseteq> set (toposort N E)"
proof (rule ccontr)
  let ?topo = "toposort N E"
  let ?S = "set N - set ?topo"
  assume "\<not> set N \<subseteq> set ?topo"
  then obtain x where x: "x \<in> ?S" by auto
  have step: "\<forall>m \<in> set N. m \<notin> set ?topo \<longrightarrow> (\<exists>s. (s, m) \<in> set E \<and> s \<notin> set ?topo)"
    unfolding toposort_def
  proof (rule kahn_loop_complete)
    show "distinct ([] @ filter (\<lambda>nid. incoming_of E nid = 0) N)" using d by simp
    show "\<forall>m. incoming_of E m = int (length (filter (\<lambda>e. snd e = m \<and> fst e \<notin> set []) E))"
      by (simp add: incoming_of_def)
    show "\<forall>m\<in>set ([] @ filter (\<lambda>nid. incoming_of E nid = 0) N). incoming_of E m = 0" by simp
    show "\<forall>m\<in>set N. incoming_of E m = 0 \<longrightarrow> m \<in> set ([] @ filter (\<lambda>nid. incoming_of E nid = 0) N)"
      by simp
  qed
  have "acyclic (set E)" using acyc by (simp add: acyclic_def)
  then have "wf (set E)" by (intro finite_acyclic_wf) auto
  from wfE_min[OF this x] obtain z where z: "z \<in> ?S" "\<And>y. (y, z) \<in> set E \<Longrightarrow> y \<notin> ?S"
    by blast
  from step z(1) obtain s where s: "(s, z) \<in> set E" "s \<notin> set ?topo" by auto
  from s(1) src have "s \<in> set N" by force
  with s(2) have "s \<in> ?S" by simp
  with z(2)[OF s(1)] show False by simp
qed

lemma toposort_short_cycle:
  assumes d: "distinct N" and src: "fst ` set E \<subseteq> set N" and tgt: "snd ` set E \<subseteq> set N"
    and short: "length (toposort N E) < length N"
  shows "\<exists>x. (x, x) \<in> (set E)\<^sup>+"
proof (rule ccontr)
  assume "\<not> (\<exists>x. (x, x) \<in> (set E)\<^sup>+)"
  then have "\<forall>x. (x, x) \<notin> (set E)\<^sup>+" by simp
  from toposort_complete_acyclic[OF d src this] have "set N \<subseteq> set (toposort N E)" .
  then have "card (set N) \<le> card (set (toposort N E))" by (intro card_mono) auto
  moreover from toposort_sound[OF d tgt] have "distinct (toposort N E)" by simp
  ultimately have "length N \<le> length (toposort N E)" using d by (simp add: distinct_card)
  with short show False by simp
qed

text \<open>
  The order in which nodes become eligible.  A pass of the inner loop whose counters are at
  least the numbers of occurrences in the list appends the nodes whose counter it brings
  to zero, each at its last occurrence.  Hence the loop keeps \<open>topo @ queue\<close> equal to the
  initial queue followed by the nodes without pending edge, in the order of the last
  relaxed edge into each.
\<close>

lemma relax_order:
  assumes "\<forall>m \<in> set ms. int (count_list ms m) \<le> inc m"
  shows "snd (relax ms inc q) = q @ filter (\<lambda>m. inc m = int (count_list ms m)) (remdups ms)"
  using assms
proof (induction ms arbitrary: inc q)
  case Nil
  then show ?case by simp
next
  case (Cons m ms)
  let ?inc1 = "inc(m := inc m - 1)"
  let ?q1 = "if ?inc1 m = 0 then q @ [m] else q"
  have bound: "\<forall>x \<in> set ms. int (count_list ms x) \<le> ?inc1 x"
    using Cons.prems by auto
  have cong: "filter (\<lambda>x. ?inc1 x = int (count_list ms x)) (remdups ms) =
              filter (\<lambda>x. inc x = int (count_list (m # ms) x)) (remdups ms)"
    by (rule filter_cong) auto
  have "snd (relax (m # ms) inc q) = snd (relax ms ?inc1 ?q1)" by (simp add: Let_def)
  also have "\<dots> = ?q1 @ filter (\<lambda>x. ?inc1 x = int (count_list ms x)) (remdups ms)"
    using Cons.IH[OF bound] .
  also have "\<dots> = ?q1 @ filter (\<lambda>x. inc x = int (count_list (m # ms) x)) (remdups ms)"
    unfolding cong ..
  also have "\<dots> = q @ filter (\<lambda>x. inc x = int (count_list (m # ms) x)) (remdups (m # ms))"
  proof (cases "m \<in> set ms")
    case True
    then have "count_list ms m > 0" using count_list_0_iff[of ms m] by auto
    moreover have "int (count_list ms m) + 1 \<le> inc m" using Cons.prems by simp
    ultimately have "inc m - 1 \<noteq> 0" by linarith
    with True show ?thesis by simp
  next
    case False
    then have "count_list ms m = 0" by (simp add: count_list_0_iff)
    then show ?thesis using False by simp
  qed
  finally show ?case .
qed


lemma remdups_append_filter:
  "remdups (xs @ ys) = filter (\<lambda>x. x \<notin> set ys) (remdups xs) @ remdups ys"
  by (induction xs) auto

lemma kahn_loop_order:
  assumes "distinct (topo @ q)"
    and "\<forall>m. inc m = int (length (filter (\<lambda>e. snd e = m \<and> fst e \<notin> set topo) E))"
    and "\<forall>m \<in> set (topo @ q). inc m = 0"
    and "topo @ q = roots @ filter (\<lambda>m. inc m = 0) (remdups (concat (map (adj_of E) topo)))"
  shows "kahn_loop E inc q topo =
           roots @ filter (\<lambda>m. filter (\<lambda>e. snd e = m \<and> fst e \<notin> set (kahn_loop E inc q topo)) E = [])
                     (remdups (concat (map (adj_of E) (kahn_loop E inc q topo))))"
  using assms
proof (induction E inc q topo rule: kahn_loop.induct)
  case (1 E inc topo)
  have "(\<lambda>m. inc m = 0) = (\<lambda>m. filter (\<lambda>e. snd e = m \<and> fst e \<notin> set topo) E = [])"
    using "1.prems"(2) by auto
  with "1.prems"(4) show ?case by simp
next
  case (2 E inc n q topo)
  obtain inc' q' where r: "relax (adj_of E n) inc q = (inc', q')"
    by (cases "relax (adj_of E n) inc q")
  let ?A = "adj_of E n"
  let ?P = "concat (map (adj_of E) topo)"
  have n_notin: "n \<notin> set topo" using "2.prems"(1) by auto
  have inc': "inc' m = inc m - int (count_list ?A m)" for m
    using relax_incoming[of ?A inc q m] r by simp
  have pend: "inc' m = int (length (filter (\<lambda>e. snd e = m \<and> fst e \<notin> set (topo @ [n])) E))" for m
    using pending_step[OF n_notin, of m E] inc'[of m] "2.prems"(2) by simp
  have bound: "int (count_list ?A m) \<le> inc m" for m
    using pend[of m] inc'[of m] by linarith
  have q': "q' = q @ filter (\<lambda>m. inc m = int (count_list ?A m)) (remdups ?A)"
    using relax_order[of ?A inc q] bound r by simp
  have notA: "m \<notin> set ?A" if "inc m = 0" for m
  proof
    assume "m \<in> set ?A"
    then have "count_list ?A m > 0" using count_list_0_iff[of ?A m] by auto
    with bound[of m] that show False by simp
  qed
  have old: "filter (\<lambda>m. inc' m = 0) (filter (\<lambda>x. x \<notin> set ?A) (remdups ?P)) =
             filter (\<lambda>m. inc m = 0) (remdups ?P)"
  proof -
    have "(\<lambda>x. inc' x = 0 \<and> x \<notin> set ?A) = (\<lambda>x. inc x = 0)"
    proof
      fix x
      show "(inc' x = 0 \<and> x \<notin> set ?A) = (inc x = 0)"
        using inc'[of x] notA[of x] count_list_0_iff[of ?A x] by auto
    qed
    then show ?thesis by (simp add: conj_commute)
  qed
  have new: "filter (\<lambda>m. inc' m = 0) (remdups ?A) =
             filter (\<lambda>m. inc m = int (count_list ?A m)) (remdups ?A)"
    by (rule filter_cong) (auto simp: inc')
  have d: "distinct ((topo @ [n]) @ q')"
  proof -
    have "x \<notin> set (topo @ n # q)"
      if "x \<in> set (filter (\<lambda>m. inc m = int (count_list ?A m)) (remdups ?A))" for x
    proof
      assume "x \<in> set (topo @ n # q)"
      then have "inc x = 0" using "2.prems"(3) by auto
      with that notA[of x] show False by simp
    qed
    then show ?thesis using "2.prems"(1) q' by auto
  qed
  have z: "\<forall>m \<in> set ((topo @ [n]) @ q'). inc' m = 0"
  proof
    fix m assume "m \<in> set ((topo @ [n]) @ q')"
    then consider "m \<in> set (topo @ n # q)"
      | "m \<in> set (filter (\<lambda>m. inc m = int (count_list ?A m)) (remdups ?A))"
      using q' by auto
    then show "inc' m = 0"
    proof cases
      case 1
      then have "inc m = 0" using "2.prems"(3) by auto
      with inc'[of m] pend[of m] show ?thesis by linarith
    next
      case 2
      then show ?thesis using inc'[of m] by simp
    qed
  qed
  have j: "(topo @ [n]) @ q' =
        roots @ filter (\<lambda>m. inc' m = 0) (remdups (concat (map (adj_of E) (topo @ [n]))))"
  proof -
    have "(topo @ [n]) @ q' = (topo @ n # q) @ filter (\<lambda>m. inc m = int (count_list ?A m)) (remdups ?A)"
      using q' by simp
    also have "\<dots> = roots @ filter (\<lambda>m. inc m = 0) (remdups ?P)
                       @ filter (\<lambda>m. inc m = int (count_list ?A m)) (remdups ?A)"
      using "2.prems"(4) by simp
    also have "\<dots> = roots @ filter (\<lambda>m. inc' m = 0) (remdups (?P @ ?A))"
      unfolding remdups_append_filter filter_append old new ..
    finally show ?thesis by simp
  qed
  have p: "\<forall>m. inc' m = int (length (filter (\<lambda>e. snd e = m \<and> fst e \<notin> set (topo @ [n])) E))"
    using pend by simp
  from "2.IH"[OF r[symmetric] d p z j] r show ?case by simp
qed

lemma toposort_order:
  assumes d: "distinct N" and src: "fst ` set E \<subseteq> set (toposort N E)"
  shows "toposort N E =
           filter (\<lambda>nid. incoming_of E nid = 0) N @
           remdups (concat (map (adj_of E) (toposort N E)))"
proof -
  let ?R = "toposort N E"
  let ?roots = "filter (\<lambda>nid. incoming_of E nid = 0) N"
  have "?R = ?roots @ filter (\<lambda>m. filter (\<lambda>e. snd e = m \<and> fst e \<notin> set ?R) E = [])
                         (remdups (concat (map (adj_of E) ?R)))"
    unfolding toposort_def
  proof (rule kahn_loop_order)
    show "distinct ([] @ ?roots)" using d by simp
    show "\<forall>m. incoming_of E m = int (length (filter (\<lambda>e. snd e = m \<and> fst e \<notin> set []) E))"
      by (simp add: incoming_of_def)
    show "\<forall>m\<in>set ([] @ ?roots). incoming_of E m = 0" by simp
    show "[] @ ?roots = ?roots @ filter (\<lambda>m. incoming_of E m = 0) (remdups (concat (map (adj_of E) [])))"
      by simp
  qed
  moreover have "filter (\<lambda>e. snd e = m \<and> fst e \<notin> set ?R) E = []" for m
    using src by (auto simp: filter_empty_conv)
  ultimately show ?thesis by simp
qed
section \<open>What validation establishes\<close>

lemma dict_set_fresh: "k \<notin> fst ` set d \<Longrightarrow> dict_set d k v = d @ [(k, v)]"
  by (induction d) auto

lemma dict_update_fresh:
  "distinct (map fst items) \<Longrightarrow> fst ` set items \<inter> fst ` set d = {} \<Longrightarrow> dict_update d items = d @ items"
proof (induction items arbitrary: d)
  case Nil
  then show ?case by simp
next
  case (Cons kv items)
  obtain k v where kv: "kv = (k, v)" by (cases kv)
  have k: "k \<notin> fst ` set d" using Cons.prems(2) kv by auto
  have "fst ` set items \<inter> fst ` set (d @ [(k, v)]) = {}" using Cons.prems kv by auto
  with Cons.IH[of "d @ [(k, v)]"] Cons.prems(1) kv
  have "dict_update (d @ [(k, v)]) items = (d @ [(k, v)]) @ items" by simp
  with k kv show ?case by (simp add: dict_set_fresh)
qed

lemma dict_of_items_distinct: "distinct (map fst items) \<Longrightarrow> dict_of_items items = items"
  using dict_update_fresh[of items "[]"] by (simp add: dict_of_items_def)

lemma py_get_str: "py_get d k = PStr s \<Longrightarrow> str_at d k = Some s"
  by (auto simp: py_get_def str_at_def split: option.splits)

lemma check_id_ok:
  "check_id idx nid ids = ([], ids') \<Longrightarrow> \<exists>s. nid = PStr s \<and> s \<noteq> [] \<and> s \<notin> ids \<and> ids' = insert s ids"
  by (auto simp: check_id_def split: pyval.splits if_splits)

lemma check_type_ok: "check_type idx ntype = Inr [] \<Longrightarrow> \<exists>t. ntype = PStr t \<and> t \<in> NODE_TYPES"
  by (auto simp: check_type_def split: if_splits)

lemma check_config_ok: "check_config idx config ntype = [] \<Longrightarrow> is_dict config"
  by (auto simp: check_config_def split: if_splits)

lemma check_node_ok:
  assumes "check_node idx n ids = Inr ([], ids')"
  shows "\<exists>nd. node_of n = Some nd \<and> node_id nd \<noteq> [] \<and> node_id nd \<notin> ids \<and>
               ids' = insert (node_id nd) ids \<and> node_type nd \<in> NODE_TYPES \<and> is_dict (node_config nd)"
proof (cases n)
  case (PDict d)
  obtain id_errors ids1 where ci: "check_id idx (py_get d ''id'') ids = (id_errors, ids1)"
    by (cases "check_id idx (py_get d ''id'') ids")
  from assms PDict ci obtain type_errors where
    ct: "check_type idx (py_get d ''type'') = Inr type_errors"
    and all: "id_errors @ type_errors @ check_config idx (py_get_or_empty d ''config'') (py_get d ''type'') = []"
    and ids: "ids' = ids1"
    by (auto simp: check_node_def Let_def split: sum.splits)
  from all have e: "id_errors = []" "type_errors = []"
    "check_config idx (py_get_or_empty d ''config'') (py_get d ''type'') = []" by auto
  from check_id_ok[OF ci[unfolded e(1)]] obtain s where
    s: "py_get d ''id'' = PStr s" "s \<noteq> []" "s \<notin> ids" "ids1 = insert s ids" by blast
  from check_type_ok[OF ct[unfolded e(2)]] obtain t where
    t: "py_get d ''type'' = PStr t" "t \<in> NODE_TYPES" by blast
  have "node_of n = Some \<lparr>node_id = s, node_type = t, node_config = py_get_or_empty d ''config''\<rparr>"
    using PDict py_get_str[OF s(1)] py_get_str[OF t(1)] by simp
  with s t ids check_config_ok[OF e(3)] show ?thesis by simp
qed (use assms in \<open>auto simp: check_node_def\<close>)

lemma check_nodes_ok:
  assumes "check_nodes idx ns errors ids = Inr ([], ids')"
  shows "errors = [] \<and> (\<exists>nodes. those (map node_of ns) = Some nodes \<and> length nodes = length ns \<and>
            distinct (map node_id nodes) \<and>
            node_id ` set nodes \<inter> ids = {} \<and> ids' = ids \<union> node_id ` set nodes \<and>
            (\<forall>n \<in> set nodes. node_id n \<noteq> [] \<and> node_type n \<in> NODE_TYPES \<and> is_dict (node_config n)))"
  using assms
proof (induction ns arbitrary: idx errors ids)
  case Nil
  then show ?case by simp
next
  case (Cons n ns)
  from Cons.prems obtain new ids1 where
    cn: "check_node idx n ids = Inr (new, ids1)"
    and rest: "check_nodes (Suc idx) ns (errors @ new) ids1 = Inr ([], ids')"
    by (auto split: sum.splits)
  from Cons.IH[OF rest] obtain nodes where
    e: "errors @ new = []" and nodes: "those (map node_of ns) = Some nodes" "length nodes = length ns"
      "distinct (map node_id nodes)"
      "node_id ` set nodes \<inter> ids1 = {}" "ids' = ids1 \<union> node_id ` set nodes"
      "\<forall>n \<in> set nodes. node_id n \<noteq> [] \<and> node_type n \<in> NODE_TYPES \<and> is_dict (node_config n)"
    by blast
  from e have e': "errors = []" "new = []" by auto
  from check_node_ok[OF cn[unfolded e'(2)]] obtain nd where
    nd: "node_of n = Some nd" "node_id nd \<noteq> []" "node_id nd \<notin> ids" "ids1 = insert (node_id nd) ids"
      "node_type nd \<in> NODE_TYPES" "is_dict (node_config nd)" by blast
  have "those (map node_of (n # ns)) = Some (nd # nodes)" using nd(1) nodes(1) by simp
  moreover have "distinct (map node_id (nd # nodes))" using nodes(3,4) nd(4) by auto
  moreover have "node_id ` set (nd # nodes) \<inter> ids = {}" using nodes(4) nd(3,4) by auto
  moreover have "ids' = ids \<union> node_id ` set (nd # nodes)" using nodes(5) nd(4) by auto
  moreover have "\<forall>n \<in> set (nd # nodes). node_id n \<noteq> [] \<and> node_type n \<in> NODE_TYPES \<and> is_dict (node_config n)"
    using nodes(6) nd by simp
  moreover have "length (nd # nodes) = length (n # ns)" using nodes(2) by simp
  ultimately show ?case using e'(1) by blast
qed

lemma check_endpoint_ok:
  "check_endpoint idx which missing v ids = [] \<Longrightarrow> \<exists>s. v = PStr s \<and> s \<in> ids"
  by (auto simp: check_endpoint_def split: pyval.splits if_splits)

lemma check_edge_ok:
  assumes "check_edge idx e ids = []"
  shows "\<exists>s t. edge_of e = Some (s, t) \<and> s \<in> ids \<and> t \<in> ids"
proof (cases e)
  case (PDict d)
  with assms have a: "check_endpoint idx ''from'' Missing_invalid_from (py_get d ''from'') ids = []"
    and b: "check_endpoint idx ''to'' Missing_invalid_to (py_get d ''to'') ids = []"
    by (auto simp: check_edge_def)
  from check_endpoint_ok[OF a] check_endpoint_ok[OF b] obtain s t where
    "py_get d ''from'' = PStr s" "s \<in> ids" "py_get d ''to'' = PStr t" "t \<in> ids" by blast
  then show ?thesis using PDict by (simp add: py_get_str)
qed (use assms in \<open>auto simp: check_edge_def\<close>)

lemma check_edges_ok:
  "check_edges idx es ids = [] \<Longrightarrow>
   \<exists>edges. those (map edge_of es) = Some edges \<and> length edges = length es \<and>
      (\<forall>(s, t) \<in> set edges. s \<in> ids \<and> t \<in> ids)"
proof (induction es arbitrary: idx)
  case Nil
  then show ?case by simp
next
  case (Cons e es)
  then have a: "check_edge idx e ids = []" and b: "check_edges (Suc idx) es ids = []" by auto
  from check_edge_ok[OF a] obtain s t where st: "edge_of e = Some (s, t)" "s \<in> ids" "t \<in> ids" by blast
  from Cons.IH[OF b] obtain edges where
    es: "those (map edge_of es) = Some edges" "length edges = length es"
      "\<forall>(s, t) \<in> set edges. s \<in> ids \<and> t \<in> ids" by blast
  have "those (map edge_of (e # es)) = Some ((s, t) # edges)" using st(1) es(1) by simp
  moreover have "\<forall>(s, t) \<in> set ((s, t) # edges). s \<in> ids \<and> t \<in> ids" using st es(3) by simp
  moreover have "length ((s, t) # edges) = length (e # es)" using es(2) by simp
  ultimately show ?case by blast
qed

lemma shape_ok: "validate_shape w = [] \<Longrightarrow> \<exists>rn re. raw_lists w = Some (rn, re)"
proof (cases w)
  case (PDict d)
  assume "validate_shape w = []"
  with PDict have "has_list d ''nodes''" "has_list d ''edges''" by (auto split: if_splits)
  then obtain rn re where "map_of d ''nodes'' = Some (PList rn)" "map_of d ''edges'' = Some (PList re)"
    by (auto simp: has_list_def split: option.splits elim!: is_list.elims)
  with PDict show ?thesis by simp
qed auto

lemma structural_ok:
  assumes "raw_lists w = Some (rn, re)" and "validate_nodes_and_edges rn re = Inr []"
  shows "\<exists>nodes edges. workflow_graph w = Some (nodes, edges) \<and> well_formed nodes edges \<and>
           length nodes = length rn \<and> length edges = length re"
proof -
  define errs0 where "errs0 =
     (if length rn > MAX_NODES then [ValidationErrorItem ''nodes'' (Too_many_nodes MAX_NODES)] else []) @
     (if length re > MAX_EDGES then [ValidationErrorItem ''edges'' (Too_many_edges MAX_EDGES)] else [])"
  from assms(2) obtain errs ids where
    cn0: "check_nodes 0 rn errs0 {} = Inr (errs, ids)" and ce0: "errs @ check_edges 0 re ids = []"
    unfolding validate_nodes_and_edges_def Let_def errs0_def[symmetric]
    by (auto split: sum.splits)
  from ce0 have ce: "check_edges 0 re ids = []" and "errs = []" by auto
  with cn0 have cn: "check_nodes 0 rn errs0 {} = Inr ([], ids)" by simp
  from check_nodes_ok[OF cn] obtain nodes where
    nodes: "those (map node_of rn) = Some nodes" "length nodes = length rn" "distinct (map node_id nodes)"
      "ids = {} \<union> node_id ` set nodes"
      "\<forall>n \<in> set nodes. node_id n \<noteq> [] \<and> node_type n \<in> NODE_TYPES \<and> is_dict (node_config n)"
    by blast
  from check_edges_ok[OF ce] obtain edges where
    edges: "those (map edge_of re) = Some edges" "length edges = length re"
       "\<forall>(s, t) \<in> set edges. s \<in> ids \<and> t \<in> ids" by blast
  have "workflow_graph w = Some (nodes, edges)"
    using assms(1) nodes(1) edges(1) by (simp add: workflow_graph_def)
  moreover have "well_formed nodes edges"
    using nodes(3,4,5) edges(3) by (simp add: well_formed_def)
  ultimately show ?thesis using nodes(2) edges(2) by blast
qed

lemma validated_graph:
  assumes "validate_workflow w b = Inr ()"
  shows "\<exists>nodes edges. workflow_graph w = Some (nodes, edges) \<and> well_formed nodes edges \<and>
           graph_errors b nodes edges = []"
proof -
  from assms have sh: "validate_shape w = []"
    by (auto simp: validate_workflow_def Let_def split: if_splits)
  from shape_ok[OF sh] obtain rn re where rl: "raw_lists w = Some (rn, re)" by blast
  from assms sh rl have st: "validate_nodes_and_edges rn re = Inr []"
    by (auto simp: validate_workflow_def Let_def split: if_splits sum.splits)
  from structural_ok[OF rl st] obtain nodes edges where
    g: "workflow_graph w = Some (nodes, edges)" "well_formed nodes edges" by blast
  from assms sh rl st g(1) have "graph_errors b nodes edges = []"
    by (auto simp: validate_workflow_def Let_def split: if_splits)
  with g show ?thesis by blast
qed

lemma types_by_id_filter:
  "map fst (filter (\<lambda>(nid, t). t = ty) (map (\<lambda>n. (node_id n, node_type n)) nodes)) =
   map node_id (filter (\<lambda>n. node_type n = ty) nodes)"
  by (induction nodes) auto

lemma nodes_meta_filter:
  "map fst (filter (\<lambda>(nid, meta). node_type meta = ty) (map (\<lambda>n. (node_id n, n)) nodes)) =
   map node_id (filter (\<lambda>n. node_type n = ty) nodes)"
  by (induction nodes) auto

lemma nodes_meta_of_wf:
  "well_formed nodes edges \<Longrightarrow> nodes_meta_of nodes = map (\<lambda>n. (node_id n, n)) nodes"
  unfolding nodes_meta_of_def
  by (rule dict_of_items_distinct) (simp add: well_formed_def comp_def)

lemma engine_order_wf:
  "well_formed nodes edges \<Longrightarrow> engine_order nodes edges = toposort (map node_id nodes) edges"
  by (simp add: engine_order_def nodes_meta_of_wf dict_keys_def comp_def)

lemma wf_targets: "well_formed nodes edges \<Longrightarrow> snd ` set edges \<subseteq> set (map node_id nodes)"
  by (auto simp: well_formed_def)

lemma wf_sources: "well_formed nodes edges \<Longrightarrow> fst ` set edges \<subseteq> set (map node_id nodes)"
  by (auto simp: well_formed_def)

lemma graph_errors_ok:
  assumes wf: "well_formed nodes edges" and ge: "graph_errors True nodes edges = []"
  shows "\<exists>s. filter (\<lambda>n. node_type n = ''user_query'') nodes = [s] \<and>
             filter (\<lambda>n. node_type n = ''output'') nodes \<noteq> [] \<and>
             (\<forall>n \<in> set nodes. (node_id s, node_id n) \<in> (set edges)\<^sup>*) \<and>
             length (toposort (map node_id nodes) edges) = length nodes"
proof -
  have tb: "dict_of_items (map (\<lambda>n. (node_id n, node_type n)) nodes) = map (\<lambda>n. (node_id n, node_type n)) nodes"
    using wf by (intro dict_of_items_distinct) (simp add: well_formed_def comp_def)
  let ?uq = "map node_id (filter (\<lambda>n. node_type n = ''user_query'') nodes)"
  let ?out = "map node_id (filter (\<lambda>n. node_type n = ''output'') nodes)"
  from ge have a: "length ?uq = 1" and b: "\<not> length ?out < 1"
    and c: "connectivity_errors ?uq nodes edges = []"
    and d: "snd (detect_cycles_and_toposort nodes edges) = []"
    unfolding graph_errors_def Let_def tb types_by_id_filter
    by (auto split: if_splits)
  from a obtain s where s: "filter (\<lambda>n. node_type n = ''user_query'') nodes = [s]"
    by (cases "filter (\<lambda>n. node_type n = ''user_query'') nodes") auto
  from c s have sub: "set (map node_id nodes) \<subseteq> reach_loop edges [node_id s] {}"
    by (auto simp: connectivity_errors_def Let_def split: if_splits)
  have reach: "(node_id s, node_id n) \<in> (set edges)\<^sup>*" if "n \<in> set nodes" for n
  proof -
    from that sub have "node_id n \<in> reach_loop edges [node_id s] {}" by auto
    with reach_loop_sound[of edges "[node_id s]" "{}"] show ?thesis by auto
  qed
  from d have "length (toposort (map node_id nodes) edges) = length nodes"
    by (auto simp: detect_cycles_and_toposort_def Let_def split: if_splits)
  moreover from b have "filter (\<lambda>n. node_type n = ''output'') nodes \<noteq> []" by auto
  ultimately show ?thesis using s reach by blast
qed

lemma filter_single:
  assumes "distinct xs" and "s \<in> set xs" and "\<And>x. x \<in> set xs \<Longrightarrow> P x \<longleftrightarrow> x = s"
  shows "filter P xs = [s]"
  using assms
proof (induction xs)
  case Nil
  then show ?case by simp
next
  case (Cons x xs)
  show ?case
  proof (cases "x = s")
    case True
    with Cons.prems have "\<And>y. y \<in> set xs \<Longrightarrow> \<not> P y" by auto
    then have "filter P xs = []" by (simp add: filter_empty_conv)
    with True Cons.prems show ?thesis by simp
  next
    case False
    with Cons show ?thesis by auto
  qed
qed

lemma entry_facts:
  assumes wf: "well_formed nodes edges" and ge: "graph_errors True nodes edges = []"
    and s: "s \<in> set nodes" "node_type s = ''user_query''"
  shows "parents_of edges (node_id s) = []"
    and "\<forall>n \<in> set nodes. incoming_of edges (node_id n) = 0 \<longrightarrow> n = s"
    and "\<exists>rest. engine_order nodes edges = node_id s # rest"
proof -
  let ?ids = "map node_id nodes"
  from graph_errors_ok[OF wf ge] obtain s' where
    s': "filter (\<lambda>n. node_type n = ''user_query'') nodes = [s']"
    and reach': "\<forall>n \<in> set nodes. (node_id s', node_id n) \<in> (set edges)\<^sup>*"
    and len: "length (toposort ?ids edges) = length nodes" by blast
  have "s \<in> set (filter (\<lambda>n. node_type n = ''user_query'') nodes)" using s by simp
  with s' have "s' = s" by simp
  with reach' have reach: "\<And>n. n \<in> set nodes \<Longrightarrow> (node_id s, node_id n) \<in> (set edges)\<^sup>*" by simp
  have d: "distinct ?ids" using wf by (simp add: well_formed_def)
  have acyc: "(x, x) \<notin> (set edges)\<^sup>+" for x
    using sorted_acyclic[OF d wf_targets[OF wf]] len by simp
  have no_in: "(p, node_id s) \<notin> set edges" for p
  proof
    assume e: "(p, node_id s) \<in> set edges"
    with wf obtain n where "n \<in> set nodes" "node_id n = p" by (auto simp: well_formed_def)
    with reach have "(node_id s, p) \<in> (set edges)\<^sup>*" by auto
    from this e have "(node_id s, node_id s) \<in> (set edges)\<^sup>+" by (rule rtrancl_into_trancl1)
    with acyc show False by simp
  qed
  then have f: "filter (\<lambda>e. snd e = node_id s) edges = []"
    by (auto simp: filter_empty_conv)
  then show p: "parents_of edges (node_id s) = []" by (simp add: parents_of_def)
  have others: "incoming_of edges (node_id n) \<noteq> 0" if "n \<in> set nodes" "n \<noteq> s" for n
  proof -
    have "node_id n \<noteq> node_id s" using that s(1) wf
      by (auto simp: well_formed_def distinct_map dest: inj_onD)
    with reach[OF that(1)] have "(node_id s, node_id n) \<in> (set edges)\<^sup>+"
      by (auto dest: rtranclD)
    then obtain p where "(p, node_id n) \<in> set edges" by (auto dest: tranclD2)
    then have "(p, node_id n) \<in> set (filter (\<lambda>e. snd e = node_id n) edges)" by simp
    then have "length (filter (\<lambda>e. snd e = node_id n) edges) > 0" by (rule length_pos_if_in_set)
    then show ?thesis by (simp add: incoming_of_def)
  qed
  then show "\<forall>n \<in> set nodes. incoming_of edges (node_id n) = 0 \<longrightarrow> n = s" by blast
  have zero: "incoming_of edges (node_id s) = 0" using f by (simp add: incoming_of_def)
  have "filter (\<lambda>nid. incoming_of edges nid = 0) ?ids = [node_id s]"
  proof (rule filter_single[OF d])
    show "node_id s \<in> set ?ids" using s(1) by simp
    fix x assume "x \<in> set ?ids"
    then obtain n where n: "n \<in> set nodes" "x = node_id n" by auto
    show "(incoming_of edges x = 0) = (x = node_id s)"
      using others[OF n(1)] zero n(2) by auto
  qed
  then have "toposort ?ids edges = kahn_loop edges (incoming_of edges) [node_id s] []"
    by (simp add: toposort_def)
  with kahn_loop_fifo[of edges "incoming_of edges" "[node_id s]" "[]"]
  show "\<exists>rest. engine_order nodes edges = node_id s # rest"
    by (auto simp: engine_order_wf[OF wf])
qed

section \<open>Validated definitions\<close>

lemma chain_valid: "validate_workflow chain True = Inr ()"
  by code_simp

lemma chain_graph: "workflow_graph chain = Some (chain_nodes, chain_edges)"
  by code_simp

lemma chain_order: "engine_order chain_nodes chain_edges = [''entry'', ''A'', ''B'', ''terminal'']"
  by code_simp

lemma validated_order:
  assumes "validate_workflow w True = Inr ()" and "workflow_graph w = Some (nodes, edges)"
  shows "well_formed nodes edges" and "graph_errors True nodes edges = []"
    and "distinct (engine_order nodes edges)"
    and "set (engine_order nodes edges) = node_id ` set nodes"
    and "\<forall>(s, t) \<in> set edges. precedes (engine_order nodes edges) s t"
    and "length (engine_order nodes edges) = length nodes"
proof -
  from validated_graph[OF assms(1)] assms(2)
  show wf: "well_formed nodes edges" and ge: "graph_errors True nodes edges = []" by auto
  let ?ids = "map node_id nodes"
  have d: "distinct ?ids" using wf by (simp add: well_formed_def)
  have t: "snd ` set edges \<subseteq> set ?ids" by (rule wf_targets[OF wf])
  from graph_errors_ok[OF wf ge] have len: "length (toposort ?ids edges) = length ?ids" by auto
  note eo = engine_order_wf[OF wf]
  from toposort_sound[OF d t] show "distinct (engine_order nodes edges)" by (simp add: eo)
  from toposort_complete[OF d t len] show s: "set (engine_order nodes edges) = node_id ` set nodes"
    by (simp add: eo)
  show "\<forall>(s, t) \<in> set edges. precedes (engine_order nodes edges) s t"
  proof clarify
    fix a b assume e: "(a, b) \<in> set edges"
    then have "b \<in> set (engine_order nodes edges)" using s wf by (auto simp: well_formed_def)
    with toposort_sound[OF d t] e show "precedes (engine_order nodes edges) a b"
      by (auto simp: eo)
  qed
  show "length (engine_order nodes edges) = length nodes" using len by (simp add: eo)
qed

lemma cycle_item_iff:
  assumes wf: "well_formed nodes edges"
  shows "(ValidationErrorItem ''workflow'' Cycle_detected \<in> set (graph_errors b nodes edges)) =
         (length (fst (detect_cycles_and_toposort nodes edges)) < length nodes)"
proof -
  let ?ids = "map node_id nodes"
  have d: "distinct ?ids" using wf by (simp add: well_formed_def)
  have le: "length (toposort ?ids edges) \<le> length nodes"
    using toposort_length_le[OF d wf_targets[OF wf]] by simp
  have "ValidationErrorItem ''workflow'' Cycle_detected \<notin>
        set (connectivity_errors us nodes edges)" for us
    by (auto simp: connectivity_errors_def Let_def split: list.splits)
  then show ?thesis using le
    by (auto simp: graph_errors_def Let_def detect_cycles_and_toposort_def)
qed

lemma cycle_item_iff_cycle:
  assumes wf: "well_formed nodes edges"
  shows "(ValidationErrorItem ''workflow'' Cycle_detected \<in> set (graph_errors b nodes edges)) =
         (\<exists>x. (x, x) \<in> (set edges)\<^sup>+)"
proof -
  let ?ids = "map node_id nodes"
  have d: "distinct ?ids" using wf by (simp add: well_formed_def)
  note s = wf_sources[OF wf] and t = wf_targets[OF wf]
  have len: "length (fst (detect_cycles_and_toposort nodes edges)) = length (toposort ?ids edges)"
    by (simp add: detect_cycles_and_toposort_def Let_def)
  show ?thesis
  proof
    assume "ValidationErrorItem ''workflow'' Cycle_detected \<in> set (graph_errors b nodes edges)"
    then have "length (toposort ?ids edges) < length ?ids"
      using cycle_item_iff[OF wf, of b] len by simp
    from toposort_short_cycle[OF d s t this] show "\<exists>x. (x, x) \<in> (set edges)\<^sup>+" .
  next
    assume "\<exists>x. (x, x) \<in> (set edges)\<^sup>+"
    then obtain x where "(x, x) \<in> (set edges)\<^sup>+" ..
    from toposort_cycle_short[OF d t this] show
      "ValidationErrorItem ''workflow'' Cycle_detected \<in> set (graph_errors b nodes edges)"
      using cycle_item_iff[OF wf, of b] len by simp
  qed
qed

lemma looped_shape: "validate_shape looped = []"
  by code_simp

lemma looped_lists:
  "raw_lists looped =
     Some ([mk_node ''q'' ''user_query'', mk_node ''o'' ''output''],
           [mk_edge ''q'' ''o'', mk_edge ''o'' ''o''])"
  by code_simp

lemma looped_structure:
  "validate_nodes_and_edges [mk_node ''q'' ''user_query'', mk_node ''o'' ''output'']
     [mk_edge ''q'' ''o'', mk_edge ''o'' ''o''] = Inr []"
  by code_simp

lemma looped_graph:
  "workflow_graph looped =
     Some ([typed_node ''q'' ''user_query'', typed_node ''o'' ''output''],
           [(''q'', ''o''), (''o'', ''o'')])"
  by code_simp

lemma looped_cycle: "(''o'', ''o'') \<in> (set [(''q'', ''o''), (''o'', ''o'')])\<^sup>+"
  by (rule r_into_trancl) simp

lemma chain_entry: "typed_node ''entry'' ''user_query'' \<in> set chain_nodes"
  by (simp add: chain_nodes_def)

lemma chain_entry_type: "node_type (typed_node ''entry'' ''user_query'') = ''user_query''"
  by (simp add: typed_node_def)

section \<open>The phases of validation\<close>

text \<open>
  Each phase raises the items it collected, and the next phase runs only when there are
  none.  Within the structural phase the items of a node are appended to those of the nodes
  before it, and the items of the edges follow those of the nodes.
\<close>

lemma validate_workflow_shape_phase:
  "validate_shape w \<noteq> [] \<Longrightarrow>
   validate_workflow w b = Inl (WorkflowValidationError (validate_shape w))"
  by (simp add: validate_workflow_def Let_def)

lemma validate_workflow_structural_phase:
  assumes "validate_shape w = []" and "raw_lists w = Some (rn, re)"
    and "validate_nodes_and_edges rn re = Inr errors" and "errors \<noteq> []"
  shows "validate_workflow w b = Inl (WorkflowValidationError errors)"
  using assms by (simp add: validate_workflow_def Let_def)

lemma validate_workflow_graph_phase:
  assumes "validate_shape w = []" and "raw_lists w = Some (rn, re)"
    and "validate_nodes_and_edges rn re = Inr []" and "workflow_graph w = Some (nodes, edges)"
  shows "validate_workflow w b =
           (if graph_errors b nodes edges = [] then Inr ()
            else Inl (WorkflowValidationError (graph_errors b nodes edges)))"
  using assms by (simp add: validate_workflow_def Let_def)

lemma check_nodes_appends:
  "check_nodes idx ns errors ids = Inr (errors', ids') \<Longrightarrow> \<exists>new. errors' = errors @ new"
proof (induction ns arbitrary: idx errors ids)
  case Nil
  then show ?case by simp
next
  case (Cons n ns)
  from Cons.prems obtain new ids1 where
    "check_nodes (Suc idx) ns (errors @ new) ids1 = Inr (errors', ids')"
    by (auto split: sum.splits)
  from Cons.IH[OF this] show ?case by auto
qed

lemma check_nodes_append:
  "check_nodes idx (ns1 @ ns2) errors ids =
     (case check_nodes idx ns1 errors ids of
        Inl exc \<Rightarrow> Inl exc
      | Inr (errors1, ids1) \<Rightarrow> check_nodes (idx + length ns1) ns2 errors1 ids1)"
  by (induction ns1 arbitrary: idx errors ids) (auto split: sum.splits)

lemma check_edges_append:
  "check_edges idx (es1 @ es2) ids =
     check_edges idx es1 ids @ check_edges (idx + length es1) es2 ids"
  by (induction es1 arbitrary: idx) auto

text \<open>
  Two user\_query nodes in a definition that reaches the graph phase: the item for this
  violation is reported once, followed by the items of the other checks of the phase.
\<close>

lemma two_user_query_nodes:
  assumes wf: "well_formed nodes edges"
    and two: "length (filter (\<lambda>n. node_type n = ''user_query'') nodes) = 2"
  shows "\<exists>start. hd (filter (\<lambda>n. node_type n = ''user_query'') nodes) = start \<and>
           graph_errors True nodes edges =
             [ValidationErrorItem ''user_query'' Exactly_one_user_query] @
             (if filter (\<lambda>n. node_type n = ''output'') nodes = []
              then [ValidationErrorItem ''output'' At_least_one_output] else []) @
             connectivity_errors
               (map node_id (filter (\<lambda>n. node_type n = ''user_query'') nodes)) nodes edges @
             snd (detect_cycles_and_toposort nodes edges)"
    and "count_list (graph_errors True nodes edges)
            (ValidationErrorItem ''user_query'' Exactly_one_user_query) = 1"
proof -
  have tb: "dict_of_items (map (\<lambda>n. (node_id n, node_type n)) nodes) = map (\<lambda>n. (node_id n, node_type n)) nodes"
    using wf by (intro dict_of_items_distinct) (simp add: well_formed_def comp_def)
  have ge: "graph_errors True nodes edges =
             [ValidationErrorItem ''user_query'' Exactly_one_user_query] @
             (if filter (\<lambda>n. node_type n = ''output'') nodes = []
              then [ValidationErrorItem ''output'' At_least_one_output] else []) @
             connectivity_errors
               (map node_id (filter (\<lambda>n. node_type n = ''user_query'') nodes)) nodes edges @
             snd (detect_cycles_and_toposort nodes edges)"
    unfolding graph_errors_def Let_def tb types_by_id_filter using two by simp
  then show "\<exists>start. hd (filter (\<lambda>n. node_type n = ''user_query'') nodes) = start \<and>
           graph_errors True nodes edges =
             [ValidationErrorItem ''user_query'' Exactly_one_user_query] @
             (if filter (\<lambda>n. node_type n = ''output'') nodes = []
              then [ValidationErrorItem ''output'' At_least_one_output] else []) @
             connectivity_errors
               (map node_id (filter (\<lambda>n. node_type n = ''user_query'') nodes)) nodes edges @
             snd (detect_cycles_and_toposort nodes edges)" by simp
  have "count_list (connectivity_errors us nodes edges)
          (ValidationErrorItem ''user_query'' Exactly_one_user_query) = 0" for us
    by (auto simp: connectivity_errors_def Let_def split: list.splits)
  moreover have "count_list (snd (detect_cycles_and_toposort nodes edges))
          (ValidationErrorItem ''user_query'' Exactly_one_user_query) = 0"
    by (simp add: detect_cycles_and_toposort_def Let_def)
  ultimately show "count_list (graph_errors True nodes edges)
            (ValidationErrorItem ''user_query'' Exactly_one_user_query) = 1"
    unfolding ge by simp
qed

lemma two_entries_errors:
  "graph_errors True two_entries_nodes two_entries_edges =
     [ValidationErrorItem ''user_query'' Exactly_one_user_query,
      ValidationErrorItem ''output'' At_least_one_output,
      ValidationErrorItem ''connectivity'' (Unreachable_nodes {''q2''}),
      ValidationErrorItem ''workflow'' Cycle_detected]"
  by code_simp

lemma unknown_type_errors:
  "validate_workflow unknown_type True =
     Inl (WorkflowValidationError
            [ValidationErrorItem ''nodes[0].type'' (Invalid_or_missing_node_type (PStr ''list'')),
             ValidationErrorItem ''nodes[1].id'' Node_must_have_a_string_id,
             ValidationErrorItem ''nodes[1].type'' (Invalid_or_missing_node_type (PStr ''bogus''))])"
  by code_simp

section \<open>Dictionaries\<close>

lemma map_of_dict_set: "map_of (dict_set d k v) = (map_of d)(k \<mapsto> v)"
  by (induction d) (auto simp: fun_eq_iff)

lemma keys_dict_set: "fst ` set (dict_set d k v) = insert k (fst ` set d)"
proof (induction d)
  case Nil
  then show ?case by simp
next
  case (Cons a d)
  obtain k' v' where "a = (k', v')" by (cases a)
  then show ?case using Cons.IH by (cases "k' = k") auto
qed

lemma distinct_dict_set: "distinct (map fst d) \<Longrightarrow> distinct (map fst (dict_set d k v))"
proof (induction d)
  case Nil
  then show ?case by simp
next
  case (Cons a d)
  obtain k' v' where a: "a = (k', v')" by (cases a)
  show ?case
  proof (cases "k' = k")
    case True
    with a Cons.prems show ?thesis by simp
  next
    case False
    have "k' \<notin> fst ` set (dict_set d k v)" using Cons.prems a False
      unfolding keys_dict_set by simp
    with a False Cons show ?thesis by simp
  qed
qed

lemma map_of_dict_update:
  "distinct (map fst other) \<Longrightarrow> map_of (dict_update d other) = map_of d ++ map_of other"
proof (induction other arbitrary: d)
  case Nil
  then show ?case by simp
next
  case (Cons a other)
  obtain k v where a: "a = (k, v)" by (cases a)
  have k: "map_of other k = None" using Cons.prems a by (simp add: map_of_eq_None_iff)
  have "map_of (dict_update (dict_set d k v) other) = map_of (dict_set d k v) ++ map_of other"
    using Cons.IH[of "dict_set d k v"] Cons.prems by simp
  also have "\<dots> = map_of d ++ map_of ((k, v) # other)"
  proof (rule ext)
    fix x
    show "(map_of (dict_set d k v) ++ map_of other) x = (map_of d ++ map_of ((k, v) # other)) x"
      using k by (simp add: map_of_dict_set map_add_def split: option.splits)
  qed
  finally show ?case unfolding a dict_update.simps .
qed

lemma keys_dict_update:
  "fst ` set (dict_update d other) = fst ` set d \<union> fst ` set other"
proof (induction other arbitrary: d)
  case Nil
  then show ?case by simp
next
  case (Cons a other)
  obtain k v where a: "a = (k, v)" by (cases a)
  show ?case unfolding a dict_update.simps Cons.IH keys_dict_set by auto
qed

lemma distinct_dict_update: "distinct (map fst d) \<Longrightarrow> distinct (map fst (dict_update d other))"
proof (induction other arbitrary: d)
  case Nil
  then show ?case by simp
next
  case (Cons a other)
  obtain k v where a: "a = (k, v)" by (cases a)
  show ?case unfolding a dict_update.simps
    by (rule Cons.IH) (rule distinct_dict_set[OF Cons.prems])
qed

lemma fold_update_keys:
  "fst ` set (fold (\<lambda>p inputs. dict_update inputs (f p)) ps acc) =
   fst ` set acc \<union> (\<Union>p \<in> set ps. fst ` set (f p))"
proof (induction ps arbitrary: acc)
  case Nil
  then show ?case by simp
next
  case (Cons p ps)
  show ?case unfolding fold_Cons comp_def Cons.IH keys_dict_update by auto
qed

lemma fold_update_distinct:
  "distinct (map fst acc) \<Longrightarrow> distinct (map fst (fold (\<lambda>p inputs. dict_update inputs (f p)) ps acc))"
  by (induction ps arbitrary: acc) (simp_all add: distinct_dict_update)

lemma fold_update_lookup:
  assumes "\<forall>p \<in> set ps. distinct (map fst (f p))"
  shows "map_of (fold (\<lambda>p inputs. dict_update inputs (f p)) ps acc) k =
         (case merge_later_wins (map f ps) k of Some v \<Rightarrow> Some v | None \<Rightarrow> map_of acc k)"
  using assms
proof (induction ps arbitrary: acc)
  case Nil
  then show ?case by simp
next
  case (Cons p ps)
  have d: "distinct (map fst (f p))" using Cons.prems by simp
  have "map_of (fold (\<lambda>p inputs. dict_update inputs (f p)) ps (dict_update acc (f p))) k =
        (case merge_later_wins (map f ps) k of Some v \<Rightarrow> Some v
         | None \<Rightarrow> map_of (dict_update acc (f p)) k)"
    using Cons.IH[of "dict_update acc (f p)"] Cons.prems by simp
  then show ?case
    by (simp add: map_of_dict_update[OF d] map_add_def split: option.splits)
qed

lemma component_map_types: "t \<in> NODE_TYPES \<Longrightarrow> \<exists>cls. map_of COMPONENT_MAP t = Some cls"
  by (auto simp: NODE_TYPES_def COMPONENT_MAP_def)

lemma map_of_nodes_meta:
  assumes "well_formed nodes edges" and "n \<in> set nodes"
  shows "map_of (nodes_meta_of nodes) (node_id n) = Some n"
proof -
  have d: "distinct (map fst (map (\<lambda>n. (node_id n, n)) nodes))"
    using assms(1) by (simp add: well_formed_def comp_def)
  have "(node_id n, n) \<in> set (map (\<lambda>n. (node_id n, n)) nodes)" using assms(2) by auto
  from map_of_is_SomeI[OF d this] show ?thesis by (simp add: nodes_meta_of_wf[OF assms(1)])
qed

section \<open>The loop over the order\<close>

subsection \<open>Predecessors, assembled inputs and the final result\<close>

text \<open>
  What the parts of the loop body and the code after the loop compute, each taken by
  itself: the predecessors of a node stand before it in the order; the assembled input
  holds the keys of every predecessor's recorded output, with the value of the last
  predecessor that has the key; a result of \<open>_safe_run_node\<close> holds \<open>_exec_duration\<close>; the
  final result is what the context holds for the first output node of the node list.
\<close>

lemma precedes_split:
  "distinct (pre @ b # post) \<Longrightarrow> precedes (pre @ b # post) a b \<Longrightarrow> a \<in> set pre"
proof (induction pre)
  case Nil
  then show ?case by (auto split: if_splits dest: precedes_in_set)
next
  case (Cons x pre)
  then show ?case by (auto split: if_splits)
qed

lemma parents_before:
  assumes valid: "validate_workflow w True = Inr ()"
    and graph: "workflow_graph w = Some (nodes, edges)"
    and split: "engine_order nodes edges = pre @ nid # post"
    and p: "p \<in> set (parents_of edges nid)"
  shows "p \<in> set pre"
proof -
  note v = validated_order[OF valid graph]
  from p have "(p, nid) \<in> set edges" by (auto simp: parents_of_def)
  with v(5) have "precedes (engine_order nodes edges) p nid" by auto
  with v(3) show ?thesis unfolding split by (intro precedes_split) auto
qed

lemma assembled_key:
  assumes "p \<in> set (par nid)" and "k \<in> fst ` set (ctx_get ctx p)"
  shows "k \<in> set (dict_keys (assemble_inputs par ctx nid))"
proof -
  from assms(1) have ne: "par nid \<noteq> []" by auto
  have "fst ` set (fold (\<lambda>p inputs. dict_update inputs (ctx_get ctx p)) (par nid) []) =
        (\<Union>p \<in> set (par nid). fst ` set (ctx_get ctx p))"
    using fold_update_keys[of "ctx_get ctx" "par nid" "[]"] by simp
  with assms ne show ?thesis by (auto simp: assemble_inputs_def dict_keys_def)
qed

lemma assemble_inputs_merge:
  assumes "par nid \<noteq> []" and "\<forall>p \<in> set (par nid). distinct (map fst (ctx_get ctx p))"
  shows "map_of (assemble_inputs par ctx nid) k = merge_later_wins (map (ctx_get ctx) (par nid)) k"
  using assms fold_update_lookup[of "par nid" "ctx_get ctx" "[]" k]
  by (simp add: assemble_inputs_def split: option.splits)

lemma safe_run_node_out:
  assumes "fst (safe_run_node e c inputs sem) = Inr out"
  shows "\<exists>r. node_run e c inputs = Returns (PDict r) \<and>
             out = dict_set r ''_exec_duration'' (PFloat (exec_duration e (comp_id c)))"
  using assms
  by (auto simp: safe_run_node_def Let_def split: if_splits run_outcome.splits pyval.splits)

lemma final_result_first:
  assumes wf: "well_formed nodes edges"
    and f: "filter (\<lambda>n. node_type n = ''output'') nodes = out_node # rest"
  shows "final_result nodes st =
           [(''result'', PDict (ctx_get (context_map st) (node_id out_node))),
            (''trace'', PList (trace st))]"
  by (simp add: final_result_def nodes_meta_of_wf[OF wf] nodes_meta_filter f)

subsection \<open>The constructor call\<close>

text \<open>
  None of the four classes declares a parameter \<open>id\<close>, so the constructor call of the loop
  raises \<open>TypeError\<close> for each of them.  The call stands before the \<open>try\<close> block: the pass
  for a node of a registered type leaves \<open>execute_workflow_safe\<close> with this exception, in
  the state in which it began.  (The classes of the same names under \<open>backend/workflow\<close>
  derive from \<open>Component\<close>, whose \<open>__init__(self, id, config)\<close> fits the call and which
  declares \<open>run\<close>; \<open>executor_safe.py\<close> does not import those.)
\<close>

lemma construct_raises:
  "construct node_cls nid config =
     Inl (TypeError (class_name node_cls @ ''.__init__() got an unexpected keyword argument ''
                     @ quoted ''id''))"
  by (cases node_cls) (simp_all add: construct_def)

lemma exec_node_raises:
  assumes "map_of nodes_meta nid = Some node_meta"
    and "map_of COMPONENT_MAP (node_type node_meta) = Some node_cls"
  shows "exec_node e nodes_meta parents nid st =
           (st, Uncaught (TypeError (class_name node_cls
                  @ ''.__init__() got an unexpected keyword argument '' @ quoted ''id'')))"
  using assms by (simp add: exec_node_def construct_raises)

text \<open>
  A validated definition has its user\_query node first in the order, so the run of every
  validated definition ends at the constructor call for that node: the context holds the
  seeded query and nothing else, the trace is the one handed in, and
  \<open>execute_workflow_safe\<close> raises the \<open>TypeError\<close> of \<open>UserQueryComponent\<close>.
\<close>

lemma validated_run_raises:
  assumes valid: "validate_workflow w True = Inr ()"
    and graph: "workflow_graph w = Some (nodes, edges)"
    and sn: "s \<in> set nodes" and ty: "node_type s = ''user_query''"
  shows "run_loop e nodes edges user_query trace0 =
           Some (\<lparr>context_map = [node_id s \<mapsto> [(''query'', PStr user_query)]], trace = trace0\<rparr>,
                 Uncaught (TypeError (''UserQueryComponent.__init__() got an unexpected keyword argument ''
                                      @ quoted ''id'')))"
    and "execute_workflow_safe e w user_query trace0 =
           Inl (TypeError (''UserQueryComponent.__init__() got an unexpected keyword argument ''
                           @ quoted ''id''))"
proof -
  note v = validated_order[OF valid graph]
  from graph_errors_ok[OF v(1,2)] obtain s' where
    s': "filter (\<lambda>n. node_type n = ''user_query'') nodes = [s']" by blast
  have "s \<in> set (filter (\<lambda>n. node_type n = ''user_query'') nodes)" using sn ty by simp
  with s' have eq: "s' = s" by simp
  from entry_facts(3)[OF v(1,2) sn ty] obtain rest where
    topo: "engine_order nodes edges = node_id s # rest" by blast
  let ?st0 = "\<lparr>context_map = [node_id s \<mapsto> [(''query'', PStr user_query)]], trace = trace0\<rparr>"
  have init: "initial_state nodes user_query trace0 = Some ?st0"
    using s' eq by (simp add: initial_state_def nodes_meta_of_wf[OF v(1)] nodes_meta_filter)
  have cls: "map_of COMPONENT_MAP (node_type s) = Some UserQueryComponent"
    by (simp add: ty COMPONENT_MAP_def)
  have "exec_node e (nodes_meta_of nodes) (parents_of edges) (node_id s) ?st0 =
          (?st0, Uncaught (TypeError (''UserQueryComponent.__init__() got an unexpected keyword argument ''
                                      @ quoted ''id'')))"
    using exec_node_raises[OF map_of_nodes_meta[OF v(1) sn] cls] by simp
  then show run: "run_loop e nodes edges user_query trace0 =
           Some (?st0, Uncaught (TypeError (''UserQueryComponent.__init__() got an unexpected keyword argument ''
                                      @ quoted ''id'')))"
    by (simp add: run_loop_def init topo)
  then show "execute_workflow_safe e w user_query trace0 =
           Inl (TypeError (''UserQueryComponent.__init__() got an unexpected keyword argument ''
                           @ quoted ''id''))"
    by (simp add: execute_workflow_safe_def valid graph)
qed

subsection \<open>Example definitions\<close>

lemma diamond_valid: "validate_workflow diamond True = Inr ()"
  by code_simp

lemma diamond_graph: "workflow_graph diamond = Some (diamond_nodes, diamond_edges)"
  by code_simp

lemma diamond_order: "engine_order diamond_nodes diamond_edges = [''q'', ''a'', ''b'', ''o'']"
  by code_simp

lemma fork_valid: "validate_workflow fork True = Inr ()"
  by code_simp

lemma fork_graph: "workflow_graph fork = Some (fork_nodes, fork_edges)"
  by code_simp

lemma fork_order: "engine_order fork_nodes fork_edges = [''q'', ''o1'', ''o2'']"
  by code_simp

lemma pair_valid: "validate_workflow pair True = Inr ()"
  by code_simp

lemma pair_graph: "workflow_graph pair = Some (pair_nodes, pair_edges)"
  by code_simp



section \<open>A failing node\<close>

text \<open>
  C1.  The claim: when the invocation of a node raises, the run halts at that node and
  returns the failure result with the node's id, its type, the message and the trace up to
  the failing entry; for the chain \<open>entry -> A -> B -> terminal\<close> in which the capability of
  \<open>A\<close> fails, the result has \<open>node_id = A\<close> and the trace has two entries.  On the chain the
  loop never reaches \<open>A\<close>: whatever the capabilities do, the constructor call for the entry
  node raises \<open>TypeError\<close> before the \<open>try\<close> block.  The loop ends there with the seeded
  context and with the trace that was handed in, and \<open>execute_workflow_safe\<close> raises the
  \<open>TypeError\<close> instead of returning a failure result.
\<close>

theorem chain_returns_no_failure:
  "run_loop e chain_nodes chain_edges user_query trace0 =
     Some (\<lparr>context_map = [''entry'' \<mapsto> [(''query'', PStr user_query)]], trace = trace0\<rparr>,
           Uncaught (TypeError (''UserQueryComponent.__init__() got an unexpected keyword argument ''
                                 @ quoted ''id''))) \<and>
   execute_workflow_safe e chain user_query trace0 =
     Inl (TypeError (''UserQueryComponent.__init__() got an unexpected keyword argument ''
                                 @ quoted ''id''))"
  using validated_run_raises[OF chain_valid chain_graph chain_entry chain_entry_type,
                             of e user_query trace0]
  by (simp add: typed_node_def)

section \<open>The input of a node\<close>


section \<open>The scheduler's order\<close>

text \<open>
  C3.  For a validated definition the order computed by the engine's Kahn loop is
  topological (the source of every edge comes before its target), holds every node id
  exactly once, and is the order the validator computed.  The ready queue is first in,
  first out: the inner loop appends to the back of the queue, and whatever is in the queue
  is emitted in queue order before anything that becomes eligible later.  Ties are broken
  by the order in which the nodes become eligible.  Within one pass of the inner loop,
  whose counters are at least the numbers of edges still to come, the nodes appended are
  those whose counter the pass brings to zero, in the order of the last edge to each.  For
  the whole order: it starts with the ids without incoming edge, in the order of the node
  list, and goes on with the other ids in the order in which the last edge into each is
  relaxed, where the edges are relaxed source by source along the order itself and, for
  one source, in the order of the edge list (\<open>remdups\<close> keeps the last occurrence of each
  element).  The order is a function of the definition alone: of its node list and its
  edge list, as lists.
\<close>

theorem scheduler_order:
  assumes "validate_workflow w True = Inr ()" and "workflow_graph w = Some (nodes, edges)"
  shows "(\<forall>(s, t) \<in> set edges. precedes (engine_order nodes edges) s t) \<and>
         distinct (engine_order nodes edges) \<and>
         set (engine_order nodes edges) = node_id ` set nodes \<and>
         length (engine_order nodes edges) = length nodes \<and>
         engine_order nodes edges = fst (detect_cycles_and_toposort nodes edges) \<and>
         (\<forall>incoming queue topo. \<exists>rest. kahn_loop edges incoming queue topo = topo @ queue @ rest) \<and>
         (\<forall>ms incoming queue. \<exists>app. snd (relax ms incoming queue) = queue @ app) \<and>
         (\<forall>ms incoming queue.
             (\<forall>m \<in> set ms. int (count_list ms m) \<le> incoming m) \<longrightarrow>
             snd (relax ms incoming queue) =
               queue @ filter (\<lambda>m. incoming m = int (count_list ms m)) (remdups ms)) \<and>
         engine_order nodes edges =
           filter (\<lambda>nid. nid \<notin> snd ` set edges) (map node_id nodes) @
           remdups (map snd (concat (map (\<lambda>n. filter (\<lambda>e. fst e = n) edges)
                                         (engine_order nodes edges))))"
proof -
  note v = validated_order[OF assms]
  note eo = engine_order_wf[OF v(1)]
  have "engine_order nodes edges = fst (detect_cycles_and_toposort nodes edges)"
    using eo by (simp add: detect_cycles_and_toposort_def Let_def)
  moreover have "\<forall>incoming queue topo. \<exists>rest. kahn_loop edges incoming queue topo = topo @ queue @ rest"
    using kahn_loop_fifo by blast
  moreover have "\<forall>ms incoming queue. \<exists>app. snd (relax ms incoming queue) = queue @ app"
    using relax_queue by blast
  moreover have "\<forall>ms incoming queue.
             (\<forall>m \<in> set ms. int (count_list ms m) \<le> incoming m) \<longrightarrow>
             snd (relax ms incoming queue) =
               queue @ filter (\<lambda>m. incoming m = int (count_list ms m)) (remdups ms)"
    using relax_order by blast
  moreover have "engine_order nodes edges =
           filter (\<lambda>nid. nid \<notin> snd ` set edges) (map node_id nodes) @
           remdups (map snd (concat (map (\<lambda>n. filter (\<lambda>e. fst e = n) edges)
                                         (engine_order nodes edges))))"
  proof -
    have d: "distinct (map node_id nodes)" using v(1) by (simp add: well_formed_def)
    have "fst ` set edges \<subseteq> set (toposort (map node_id nodes) edges)"
      using wf_sources[OF v(1)] v(4) by (simp add: eo)
    from toposort_order[OF d this] have
      "engine_order nodes edges =
         filter (\<lambda>nid. incoming_of edges nid = 0) (map node_id nodes) @
         remdups (concat (map (adj_of edges) (engine_order nodes edges)))"
      by (simp add: eo)
    moreover have "(\<lambda>nid. incoming_of edges nid = 0) = (\<lambda>nid. nid \<notin> snd ` set edges)"
      by (auto simp: incoming_of_def filter_empty_conv)
    moreover have "concat (map (adj_of edges) xs) =
                   map snd (concat (map (\<lambda>n. filter (\<lambda>e. fst e = n) edges) xs))" for xs
      by (simp add: map_concat adj_of_def[abs_def] comp_def)
    ultimately show ?thesis by simp
  qed
  ultimately show ?thesis using v(3,4,5,6) by blast
qed

theorem scheduler_order_witness:
  "validate_workflow diamond True = Inr () \<and>
   workflow_graph diamond = Some (diamond_nodes, diamond_edges) \<and>
   precedes (engine_order diamond_nodes diamond_edges) ''q'' ''a'' \<and>
   precedes (engine_order diamond_nodes diamond_edges) ''q'' ''b'' \<and>
   precedes (engine_order diamond_nodes diamond_edges) ''a'' ''o'' \<and>
   precedes (engine_order diamond_nodes diamond_edges) ''b'' ''o'' \<and>
   distinct (engine_order diamond_nodes diamond_edges) \<and>
   set (engine_order diamond_nodes diamond_edges) = node_id ` set diamond_nodes \<and>
   length (engine_order diamond_nodes diamond_edges) = length diamond_nodes \<and>
   engine_order diamond_nodes diamond_edges = fst (detect_cycles_and_toposort diamond_nodes diamond_edges) \<and>
   snd (relax [''a'', ''b''] (incoming_of diamond_edges) []) = [''a'', ''b''] \<and>
   engine_order diamond_nodes diamond_edges =
     [''q''] @ remdups ([''a'', ''b''] @ [''o''] @ [''o''] @ []) \<and>
   engine_order diamond_nodes diamond_edges = [''q'', ''a'', ''b'', ''o'']"
proof -
  note t = scheduler_order [OF diamond_valid diamond_graph]
  have e: "(''q'', ''a'') \<in> set diamond_edges" "(''q'', ''b'') \<in> set diamond_edges"
      "(''a'', ''o'') \<in> set diamond_edges" "(''b'', ''o'') \<in> set diamond_edges"
    by (simp_all add: diamond_edges_def)
  from t have "(\<forall>m \<in> set [''a'', ''b'']. int (count_list [''a'', ''b''] m) \<le> incoming_of diamond_edges m) \<longrightarrow>
      snd (relax [''a'', ''b''] (incoming_of diamond_edges) []) =
        [] @ filter (\<lambda>m. incoming_of diamond_edges m = int (count_list [''a'', ''b''] m))
               (remdups [''a'', ''b''])"
    by blast
  then have r: "snd (relax [''a'', ''b''] (incoming_of diamond_edges) []) = [''a'', ''b'']"
    by (simp add: incoming_of_def diamond_edges_def)
  from t have "engine_order diamond_nodes diamond_edges =
           filter (\<lambda>nid. nid \<notin> snd ` set diamond_edges) (map node_id diamond_nodes) @
           remdups (map snd (concat (map (\<lambda>n. filter (\<lambda>e. fst e = n) diamond_edges)
                                         (engine_order diamond_nodes diamond_edges))))"
    by blast
  then have f: "engine_order diamond_nodes diamond_edges =
     [''q''] @ remdups ([''a'', ''b''] @ [''o''] @ [''o''] @ [])"
    unfolding diamond_order
    by (simp add: diamond_edges_def diamond_nodes_def typed_node_def)
  from t e have
    "precedes (engine_order diamond_nodes diamond_edges) ''q'' ''a''"
    "precedes (engine_order diamond_nodes diamond_edges) ''q'' ''b''"
    "precedes (engine_order diamond_nodes diamond_edges) ''a'' ''o''"
    "precedes (engine_order diamond_nodes diamond_edges) ''b'' ''o''"
    by blast+
  with t r f diamond_valid diamond_graph diamond_order show ?thesis by blast
qed

section \<open>A node type that cannot be hashed\<close>

text \<open>
  C4.  The claim: \<open>validate_workflow\<close> collects every violation of a phase and raises them
  together, never stopping at the first one.  The structural phase tests
  \<open>ntype not in NODE_TYPES\<close>, which raises \<open>TypeError\<close> when the type of a node is a list or
  a dictionary.  On \<open>unhashable_type\<close> the phase stops at the first node with this
  exception: the two violations of the second node are not reported, no
  \<open>WorkflowValidationError\<close> is raised, and \<open>execute_workflow_safe\<close> passes the \<open>TypeError\<close>
  on.  (With the string \<open>list\<close> in place of the list, \<open>unknown_type_errors\<close> shows the three
  items raised together.)
\<close>

theorem validate_raises_TypeError:
  "validate_workflow unhashable_type True
     = Inl (TypeError (''unhashable type: '' @ quoted ''list'')) \<and>
   execute_workflow_safe e unhashable_type user_query trace0
     = Inl (TypeError (''unhashable type: '' @ quoted ''list''))"
proof -
  have "validate_workflow unhashable_type True
     = Inl (TypeError (''unhashable type: '' @ quoted ''list''))" by code_simp
  then show ?thesis by (simp add: execute_workflow_safe_def)
qed

section \<open>Cycles\<close>

text \<open>
  C5.  A definition that passes the shape and the structural phase and whose edges contain
  a directed cycle (a self-loop included) makes \<open>validate_workflow\<close> raise the aggregated
  error with the item for the cycle, and \<open>execute_workflow_safe\<close> raises the same error
  before any node is run.  The item is reported exactly when Kahn's order is shorter than
  the node list, which is exactly when the edges contain a directed cycle.
\<close>

theorem cycle_rejected:
  assumes "validate_shape w = []" and "raw_lists w = Some (rn, re)"
    and "validate_nodes_and_edges rn re = Inr []"
    and "workflow_graph w = Some (nodes, edges)"
    and "(n, n) \<in> (set edges)\<^sup>+"
  shows "(\<exists>errors. validate_workflow w b = Inl (WorkflowValidationError errors) \<and>
            ValidationErrorItem ''workflow'' Cycle_detected \<in> set errors) \<and>
         (\<exists>errors. execute_workflow_safe e w q trace0 = Inl (WorkflowValidationError errors) \<and>
            ValidationErrorItem ''workflow'' Cycle_detected \<in> set errors) \<and>
         ((ValidationErrorItem ''workflow'' Cycle_detected \<in> set (graph_errors b nodes edges)) =
          (length (fst (detect_cycles_and_toposort nodes edges)) < length nodes)) \<and>
         ((length (fst (detect_cycles_and_toposort nodes edges)) < length nodes) =
          (\<exists>x. (x, x) \<in> (set edges)\<^sup>+))"
proof -
  from structural_ok[OF assms(2,3)] assms(4) have wf: "well_formed nodes edges" by auto
  let ?ids = "map node_id nodes"
  have d: "distinct ?ids" using wf by (simp add: well_formed_def)
  have short: "length (fst (detect_cycles_and_toposort nodes edges)) < length nodes"
    using toposort_cycle_short[OF d wf_targets[OF wf] assms(5)]
    by (simp add: detect_cycles_and_toposort_def Let_def)
  have item: "ValidationErrorItem ''workflow'' Cycle_detected \<in> set (graph_errors b' nodes edges)" for b'
    using cycle_item_iff[OF wf] short by simp
  have v: "validate_workflow w b' = Inl (WorkflowValidationError (graph_errors b' nodes edges))" for b'
    using assms(1-4) item[of b'] by (auto simp: validate_workflow_def Let_def)
  have "execute_workflow_safe e w q trace0 = Inl (WorkflowValidationError (graph_errors True nodes edges))"
    using v[of True] by (simp add: execute_workflow_safe_def)
  with v[of b] item cycle_item_iff[OF wf, of b] cycle_item_iff_cycle[OF wf, of b]
  show ?thesis by blast
qed

theorem cycle_rejected_witness:
  "validate_shape looped = [] \<and>
   validate_nodes_and_edges [mk_node ''q'' ''user_query'', mk_node ''o'' ''output'']
     [mk_edge ''q'' ''o'', mk_edge ''o'' ''o''] = Inr [] \<and>
   (''o'', ''o'') \<in> (set [(''q'', ''o''), (''o'', ''o'')])\<^sup>+ \<and>
   (\<exists>errors. validate_workflow looped True = Inl (WorkflowValidationError errors) \<and>
       ValidationErrorItem ''workflow'' Cycle_detected \<in> set errors) \<and>
   (\<exists>errors. execute_workflow_safe (env_of (\<lambda>c i. Returns (PDict i)) True) looped ''What is X?'' []
        = Inl (WorkflowValidationError errors) \<and>
       ValidationErrorItem ''workflow'' Cycle_detected \<in> set errors)"
  using cycle_rejected [OF looped_shape looped_lists looped_structure looped_graph looped_cycle,
                        of True "env_of (\<lambda>c i. Returns (PDict i)) True" "''What is X?''" "[]"]
        looped_shape looped_structure looped_cycle
  by blast

section \<open>The canonical result\<close>

text \<open>
  C6.  The claim: when every node completes, \<open>execute_workflow_safe\<close> returns the recorded
  output of the first output node in the scheduler's order, with the full trace.  On the
  fork, whose order is \<open>q\<close>, \<open>o1\<close>, \<open>o2\<close>, no node completes and nothing is returned: the
  constructor call for \<open>q\<close> raises \<open>TypeError\<close> and \<open>execute_workflow_safe\<close> raises it.  The
  code that builds the result takes the output nodes in the order of the node list, so in
  any state it would return what the context holds for \<open>o2\<close>.
\<close>

theorem fork_returns_no_result:
  "execute_workflow_safe e fork user_query trace0 =
     Inl (TypeError (''UserQueryComponent.__init__() got an unexpected keyword argument ''
                                 @ quoted ''id'')) \<and>
   engine_order fork_nodes fork_edges = [''q'', ''o1'', ''o2''] \<and>
   final_result fork_nodes st =
     [(''result'', PDict (ctx_get (context_map st) ''o2'')), (''trace'', PList (trace st))]"
proof -
  have q: "typed_node ''q'' ''user_query'' \<in> set fork_nodes"
    by (simp add: fork_nodes_def)
  have t: "node_type (typed_node ''q'' ''user_query'') = ''user_query''"
    by (simp add: typed_node_def)
  have "final_result fork_nodes st =
          [(''result'', PDict (ctx_get (context_map st) ''o2'')), (''trace'', PList (trace st))]"
    by (simp add: final_result_def fork_nodes_def typed_node_def nodes_meta_of_def
                  dict_of_items_def)
  with validated_run_raises(2)[OF fork_valid fork_graph q t, of e user_query trace0] fork_order
  show ?thesis by simp
qed

section \<open>Trace entries\<close>

text \<open>
  C7.  The claim: every attempted node gets one trace entry with its id, its type and its
  start time, completed with the status, the duration, and the keys of the output or the
  error message.  On the pair \<open>q -> o\<close> the node \<open>q\<close> is attempted and gets no entry: its
  constructor call raises \<open>TypeError\<close> before the entry is appended, and the loop ends with
  the trace that was handed in.  The two updates of an entry differ besides: the one for a
  success stores \<open>duration_seconds\<close>, the one for a failure stores the status and the
  message only, so a failed entry would have no duration.
\<close>

theorem pair_records_no_entry:
  "run_loop e pair_nodes pair_edges user_query trace0 =
     Some (\<lparr>context_map = [''q'' \<mapsto> [(''query'', PStr user_query)]], trace = trace0\<rparr>,
           Uncaught (TypeError (''UserQueryComponent.__init__() got an unexpected keyword argument ''
                                 @ quoted ''id''))) \<and>
   dict_keys (success_entry e nid ntype output) =
     [''node_id'', ''node_type'', ''started_at'', ''status'', ''duration_seconds'', ''output_keys''] \<and>
   dict_keys (error_entry e nid ntype exc) =
     [''node_id'', ''node_type'', ''started_at'', ''status'', ''error'']"
proof -
  have q: "typed_node ''q'' ''user_query'' \<in> set pair_nodes"
    by (simp add: pair_nodes_def)
  have t: "node_type (typed_node ''q'' ''user_query'') = ''user_query''"
    by (simp add: typed_node_def)
  have "dict_keys (success_entry e nid ntype output) =
     [''node_id'', ''node_type'', ''started_at'', ''status'', ''duration_seconds'', ''output_keys'']"
    by (simp add: success_entry_def new_entry_def dict_keys_def)
  moreover have "dict_keys (error_entry e nid ntype exc) =
     [''node_id'', ''node_type'', ''started_at'', ''status'', ''error'']"
    by (simp add: error_entry_def new_entry_def dict_keys_def)
  ultimately show ?thesis
    using validated_run_raises(1)[OF pair_valid pair_graph q t, of e user_query trace0]
    by (simp add: typed_node_def)
qed

section \<open>The permit of a rate-limited node\<close>

text \<open>
  C8.  An invocation of an LLM node either fails to acquire the permit, and then raises the
  \<open>NodeExecutionError\<close> of the acquisition without any operation on the semaphore, or it
  acquires the permit and releases it exactly once, whatever the node's \<open>run\<close> does
  (return a dictionary, return something else, raise, time out).
\<close>

theorem safe_run_node_permit:
  assumes "comp_class node_obj = LLMEngineComponent"
  shows "if sem_acquire e node_obj
         then snd (safe_run_node e node_obj inputs sem) = sem @ [Acquire, Release]
         else safe_run_node e node_obj inputs sem =
                (Inl (NodeExecutionError
                        ''Could not acquire LLM semaphore (too many concurrent LLM calls)''), sem)"
  using assms
  by (simp add: safe_run_node_def Let_def split: run_outcome.splits pyval.splits sum.splits)

theorem safe_run_node_permit_witness:
  "comp_class llm_instance = LLMEngineComponent \<and>
   snd (safe_run_node (env_of (\<lambda>c i. TimesOut) True) llm_instance [(''query'', PStr ''q'')] [])
     = [Acquire, Release] \<and>
   safe_run_node (env_of (\<lambda>c i. Returns (PDict i)) False) llm_instance [(''query'', PStr ''q'')] []
     = (Inl (NodeExecutionError
               ''Could not acquire LLM semaphore (too many concurrent LLM calls)''), [])"
  using safe_run_node_permit [of llm_instance "env_of (\<lambda>c i. TimesOut) True"
                                 "[(''query'', PStr ''q'')]" "[]"]
        safe_run_node_permit [of llm_instance "env_of (\<lambda>c i. Returns (PDict i)) False"
                                 "[(''query'', PStr ''q'')]" "[]"]
  by (simp add: llm_instance_def env_of_def)

section \<open>The entry node\<close>

text \<open>
  C9.  In a definition accepted by \<open>validate_workflow\<close> the user\_query node is unique, has
  no incoming edge, and is the only node whose in-degree is zero; it is therefore the first
  node of the engine's order, and the input assembled for it is the seeded
  \<open>{"query": user_query}\<close>.
\<close>

theorem entry_node_first:
  assumes "validate_workflow w True = Inr ()" and "workflow_graph w = Some (nodes, edges)"
    and "s \<in> set nodes" and "node_type s = ''user_query''"
  shows "(\<forall>n \<in> set nodes. node_type n = ''user_query'' \<longrightarrow> n = s) \<and>
         parents_of edges (node_id s) = [] \<and>
         incoming_of edges (node_id s) = 0 \<and>
         (\<forall>n \<in> set nodes. incoming_of edges (node_id n) = 0 \<longrightarrow> n = s) \<and>
         (\<exists>rest. engine_order nodes edges = node_id s # rest) \<and>
         initial_state nodes user_query trace0 =
           Some \<lparr>context_map = [node_id s \<mapsto> [(''query'', PStr user_query)]], trace = trace0\<rparr> \<and>
         assemble_inputs (parents_of edges) [node_id s \<mapsto> [(''query'', PStr user_query)]] (node_id s)
           = [(''query'', PStr user_query)]"
proof -
  note v = validated_order[OF assms(1,2)]
  note ef = entry_facts[OF v(1,2) assms(3,4)]
  from graph_errors_ok[OF v(1,2)] obtain s' where
    s': "filter (\<lambda>n. node_type n = ''user_query'') nodes = [s']" by blast
  have "s \<in> set (filter (\<lambda>n. node_type n = ''user_query'') nodes)" using assms(3,4) by simp
  with s' have eq: "s' = s" by simp
  have uniq: "\<forall>n \<in> set nodes. node_type n = ''user_query'' \<longrightarrow> n = s"
  proof clarify
    fix n assume "n \<in> set nodes" "node_type n = ''user_query''"
    then have "n \<in> set (filter (\<lambda>n. node_type n = ''user_query'') nodes)" by simp
    with s' eq show "n = s" by simp
  qed
  have zero: "incoming_of edges (node_id s) = 0"
    using ef(1) by (simp add: parents_of_def incoming_of_def)
  have init: "initial_state nodes user_query trace0 =
           Some \<lparr>context_map = [node_id s \<mapsto> [(''query'', PStr user_query)]], trace = trace0\<rparr>"
    using s' eq by (simp add: initial_state_def nodes_meta_of_wf[OF v(1)] nodes_meta_filter)
  have inp: "assemble_inputs (parents_of edges) [node_id s \<mapsto> [(''query'', PStr user_query)]] (node_id s)
           = [(''query'', PStr user_query)]"
    using ef(1) by (simp add: assemble_inputs_def ctx_get_def)
  show ?thesis using uniq ef zero init inp by blast
qed

theorem entry_node_first_witness:
  "validate_workflow chain True = Inr () \<and>
   workflow_graph chain = Some (chain_nodes, chain_edges) \<and>
   typed_node ''entry'' ''user_query'' \<in> set chain_nodes \<and>
   node_type (typed_node ''entry'' ''user_query'') = ''user_query'' \<and>
   parents_of chain_edges (node_id (typed_node ''entry'' ''user_query'')) = [] \<and>
   (\<exists>rest. engine_order chain_nodes chain_edges = node_id (typed_node ''entry'' ''user_query'') # rest)"
  using entry_node_first [OF chain_valid chain_graph chain_entry chain_entry_type]
        chain_valid chain_graph chain_entry chain_entry_type
  by blast

section \<open>The injected duration\<close>


end
